theory Spec2Isabelle
  imports Main "HOL-Library.Multiset"
begin

section \<open>Instructions, values and errors\<close>

text \<open>
  The instrumentation of \<^verbatim>\<open>branch_instrumentation.py\<close> works on the abstract
  instruction list that \<^verbatim>\<open>Bytecode.from_code\<close> returns: a Python list whose
  elements are \<^verbatim>\<open>Instr\<close> objects (a name and an argument), \<^verbatim>\<open>Label\<close>
  objects and \<^verbatim>\<open>SetLineno\<close> objects. The argument of an instruction is
  dynamically typed in Python; the constructors below are the shapes that occur.
\<close>

datatype compare =
  Cmp_LT | Cmp_LE | Cmp_EQ | Cmp_NE | Cmp_GT | Cmp_GE | Cmp_IN | Cmp_NOT_IN
  | Cmp_IS | Cmp_IS_NOT | Cmp_EXC_MATCH

datatype arg = NoArg | IntArg int | StrArg string | CmpArg compare | LabelArg nat

datatype elem = Instr (iname: string) (iarg: arg) | Label nat | SetLineno nat

datatype pyval = VNone | VBool bool | VInt int | VStr string | VObj nat

datatype error = AssertionError | IndexError | AttributeError

text \<open>\<^verbatim>\<open>isinstance(x, Instr)\<close>.\<close>

fun is_Instr :: "elem \<Rightarrow> bool" where
  "is_Instr (Instr n a) = True"
| "is_Instr (Label l) = False"
| "is_Instr (SetLineno l) = False"

text \<open>Python's \<^verbatim>\<open>p in s\<close> on strings: \<open>p\<close> occurs in \<open>s\<close> as a contiguous block.\<close>

fun str_contains :: "string \<Rightarrow> string \<Rightarrow> bool" where
  "str_contains p [] = (p = [])"
| "str_contains p (c # cs) = (take (length p) (c # cs) = p \<or> str_contains p cs)"

text \<open>
  \<^verbatim>\<open>Instr.is_cond_jump()\<close> of the \<^verbatim>\<open>bytecode\<close> library, which the walker
  calls on instructions only: the name contains \<^verbatim>\<open>JUMP_IF_\<close>
  (\<^verbatim>\<open>POP_JUMP_IF_FALSE\<close>, \<^verbatim>\<open>JUMP_IF_TRUE_OR_POP\<close>, ...).
\<close>

fun is_cond_jump :: "elem \<Rightarrow> bool" where
  "is_cond_jump (Instr n a) = str_contains ''JUMP_IF_'' n"
| "is_cond_jump (Label l) = False"
| "is_cond_jump (SetLineno l) = False"

text \<open>The test of line 69: \<^verbatim>\<open>isinstance(current, Instr) and current.is_cond_jump()\<close>.\<close>

definition cond_branch :: "elem \<Rightarrow> bool" where
  "cond_branch x = (is_Instr x \<and> is_cond_jump x)"

text \<open>
  The test of lines 72-73 on the previous element:
  \<^verbatim>\<open>isinstance(previous, Instr) and previous.name == "COMPARE_OP"\<close>.
\<close>

definition is_compare :: "elem \<Rightarrow> bool" where
  "is_compare x = (is_Instr x \<and> iname x = ''COMPARE_OP'')"

section \<open>The list iterator\<close>

text \<open>
  Modelled from the spec: the class \<^verbatim>\<open>ListIterator\<close> of
  \<^verbatim>\<open>pynguin.utils.iterator\<close> is not among the sources. Section 4.1 of the
  specification describes it as a cursor over a mutable sequence with
  \<^verbatim>\<open>advance\<close> (here \<open>it_next\<close>: moves forward and tells whether an element
  remains), \<^verbatim>\<open>current\<close>, \<^verbatim>\<open>peekPrevious\<close> (here \<open>it_previous\<close>),
  \<^verbatim>\<open>hasPrevious\<close> and \<^verbatim>\<open>insertBefore(instructions, offsetFromCurrent)\<close>,
  which splices the instructions before the current element, or that many positions further
  back, and moves the position so that the current element stays current and the inserted
  elements are not visited. The cursor starts before the first element. Reading where
  nothing is defined is an error value.
\<close>

record cursor =
  items :: "elem list"
  idx :: int

definition ListIterator :: "elem list \<Rightarrow> cursor" where
  "ListIterator xs = \<lparr>items = xs, idx = - 1\<rparr>"

definition it_next :: "cursor \<Rightarrow> bool \<times> cursor" where
  "it_next c =
     (if idx c + 1 < int (length (items c)) then (True, c\<lparr>idx := idx c + 1\<rparr>)
      else (False, c))"

definition it_current :: "cursor \<Rightarrow> error + elem" where
  "it_current c =
     (if 0 \<le> idx c \<and> idx c < int (length (items c)) then Inr (items c ! nat (idx c))
      else Inl IndexError)"

definition it_has_previous :: "cursor \<Rightarrow> bool" where
  "it_has_previous c = (0 < idx c)"

definition it_previous :: "cursor \<Rightarrow> error + elem" where
  "it_previous c =
     (if it_has_previous c \<and> idx c - 1 < int (length (items c))
      then Inr (items c ! nat (idx c - 1))
      else Inl AssertionError)"

definition it_insert_before :: "elem list \<Rightarrow> int \<Rightarrow> cursor \<Rightarrow> error + cursor" where
  "it_insert_before ins off c =
     (if idx c - off < 0 then Inl AssertionError
      else Inr \<lparr>items = take (nat (idx c - off)) (items c) @ ins
                         @ drop (nat (idx c - off)) (items c),
                idx = idx c + int (length ins)\<rparr>)"

section \<open>The instrumentation object and the probes\<close>

text \<open>
  The tracer is a collaborator: the instrumentation calls its registration hooks
  \<^verbatim>\<open>predicate_exists\<close> and \<^verbatim>\<open>function_exists\<close>. The calls are recorded in
  the order in which they are made.
\<close>

datatype tracer_call = PredicateExists int | FunctionExists int

text \<open>
  The fields of a \<^verbatim>\<open>BranchInstrumentation\<close> object: the two counters, the
  reference to the tracer, and the calls made on that tracer so far.
\<close>

record coord =
  predicate_id :: int
  function_id :: int
  tracer :: pyval
  tracer_log :: "tracer_call list"

text \<open>\<^verbatim>\<open>__init__\<close> (lines 32-35).\<close>

definition init :: "pyval \<Rightarrow> coord" where
  "init t = \<lparr>predicate_id = 0, function_id = 0, tracer = t, tracer_log = []\<rparr>"

definition INSTRUMENTED_FLAG :: string where
  "INSTRUMENTED_FLAG = ''instrumented''"

definition TRACER_NAME :: string where
  "TRACER_NAME = ''tracer''"

text \<open>The three instruction lists \<^verbatim>\<open>stmts\<close> of lines 82-91, 98-108 and 114-120.\<close>

definition bool_predicate_stmts :: "int \<Rightarrow> elem list" where
  "bool_predicate_stmts pid =
     [Instr ''DUP_TOP'' NoArg,
      Instr ''LOAD_GLOBAL'' (StrArg TRACER_NAME),
      Instr ''LOAD_METHOD'' (StrArg ''passed_bool_predicate''),
      Instr ''ROT_THREE'' NoArg,
      Instr ''ROT_THREE'' NoArg,
      Instr ''LOAD_CONST'' (IntArg pid),
      Instr ''CALL_METHOD'' (IntArg 2),
      Instr ''POP_TOP'' NoArg]"

definition cmp_predicate_stmts :: "int \<Rightarrow> arg \<Rightarrow> elem list" where
  "cmp_predicate_stmts pid op =
     [Instr ''DUP_TOP_TWO'' NoArg,
      Instr ''LOAD_GLOBAL'' (StrArg TRACER_NAME),
      Instr ''LOAD_METHOD'' (StrArg ''passed_cmp_predicate''),
      Instr ''ROT_FOUR'' NoArg,
      Instr ''ROT_FOUR'' NoArg,
      Instr ''LOAD_CONST'' (IntArg pid),
      Instr ''LOAD_CONST'' op,
      Instr ''CALL_METHOD'' (IntArg 4),
      Instr ''POP_TOP'' NoArg]"

definition function_entered_stmts :: "int \<Rightarrow> elem list" where
  "function_entered_stmts fid =
     [Instr ''LOAD_GLOBAL'' (StrArg TRACER_NAME),
      Instr ''LOAD_METHOD'' (StrArg ''entered_function''),
      Instr ''LOAD_CONST'' (IntArg fid),
      Instr ''CALL_METHOD'' (IntArg 1),
      Instr ''POP_TOP'' NoArg]"

text \<open>\<^verbatim>\<open>self._tracer.predicate_exists(id)\<close> and \<^verbatim>\<open>function_exists(id)\<close>.\<close>

definition call_tracer :: "tracer_call \<Rightarrow> coord \<Rightarrow> coord" where
  "call_tracer ev s = s\<lparr>tracer_log := tracer_log s @ [ev]\<rparr>"

text \<open>\<^verbatim>\<open>_add_bool_predicate\<close> (lines 80-93).\<close>

definition add_bool_predicate :: "cursor \<Rightarrow> coord \<Rightarrow> (error + cursor) \<times> coord" where
  "add_bool_predicate c s =
     (let s1 = call_tracer (PredicateExists (predicate_id s)) s;
          stmts = bool_predicate_stmts (predicate_id s1)
      in case it_insert_before stmts 0 c of
           Inl e \<Rightarrow> (Inl e, s1)
         | Inr c' \<Rightarrow> (Inr c', s1\<lparr>predicate_id := predicate_id s1 + 1\<rparr>))"

text \<open>
  \<^verbatim>\<open>_add_cmp_predicate\<close> (lines 95-110). Reading \<^verbatim>\<open>cmp_op.arg\<close> needs an
  instruction: a label has no such attribute.
\<close>

definition add_cmp_predicate :: "cursor \<Rightarrow> coord \<Rightarrow> (error + cursor) \<times> coord" where
  "add_cmp_predicate c s =
     (case it_previous c of
        Inl e \<Rightarrow> (Inl e, s)
      | Inr cmp_op \<Rightarrow>
          (let s1 = call_tracer (PredicateExists (predicate_id s)) s
           in if \<not> is_Instr cmp_op then (Inl AttributeError, s1)
              else
                (case it_insert_before
                        (cmp_predicate_stmts (predicate_id s1) (iarg cmp_op)) 1 c of
                   Inl e \<Rightarrow> (Inl e, s1)
                 | Inr c' \<Rightarrow> (Inr c', s1\<lparr>predicate_id := predicate_id s1 + 1\<rparr>))))"

text \<open>\<^verbatim>\<open>_add_function_entered\<close> (lines 112-122).\<close>

definition add_function_entered :: "cursor \<Rightarrow> coord \<Rightarrow> (error + cursor) \<times> coord" where
  "add_function_entered c s =
     (let s1 = call_tracer (FunctionExists (function_id s)) s;
          stmts = function_entered_stmts (function_id s1)
      in case it_insert_before stmts 0 c of
           Inl e \<Rightarrow> (Inl e, s1)
         | Inr c' \<Rightarrow> (Inr c', s1\<lparr>function_id := function_id s1 + 1\<rparr>))"

section \<open>The walker\<close>

text \<open>
  The body of the loop of lines 64-77, run on the cursor after \<^verbatim>\<open>next()\<close> returned
  true. The flag is \<^verbatim>\<open>function_entered_inserted\<close>. The condition of lines 70-74 is
  a chain of \<^verbatim>\<open>and\<close>: \<^verbatim>\<open>previous()\<close> is called only where
  \<^verbatim>\<open>has_previous()\<close> holds.
\<close>

definition visit :: "cursor \<Rightarrow> bool \<Rightarrow> coord \<Rightarrow> (error + cursor) \<times> coord" where
  "visit c entered s =
     (case (if \<not> entered then add_function_entered c s else (Inr c, s)) of
        (Inl e, s1) \<Rightarrow> (Inl e, s1)
      | (Inr c1, s1) \<Rightarrow>
          (case it_current c1 of
             Inl e \<Rightarrow> (Inl e, s1)
           | Inr current \<Rightarrow>
               if cond_branch current then
                 (if it_has_previous c1 then
                    (case it_previous c1 of
                       Inl e \<Rightarrow> (Inl e, s1)
                     | Inr p \<Rightarrow>
                         if is_compare p then add_cmp_predicate c1 s1
                         else add_bool_predicate c1 s1)
                  else add_bool_predicate c1 s1)
               else (Inr c1, s1)))"

text \<open>What is left to visit: the distance of the position from the end of the list.\<close>

definition gap :: "cursor \<Rightarrow> int" where
  "gap c = int (length (items c)) - idx c"

lemma insert_before_gap:
  "it_insert_before ins off c = Inr c' \<Longrightarrow> gap c' = gap c"
  by (auto simp: it_insert_before_def gap_def split: if_splits)

lemma add_bool_gap: "add_bool_predicate c s = (Inr c', s') \<Longrightarrow> gap c' = gap c"
  by (auto simp: add_bool_predicate_def Let_def split: sum.splits dest: insert_before_gap)

lemma add_cmp_gap: "add_cmp_predicate c s = (Inr c', s') \<Longrightarrow> gap c' = gap c"
  by (auto simp: add_cmp_predicate_def Let_def split: sum.splits if_splits
      dest: insert_before_gap)

lemma add_entered_gap: "add_function_entered c s = (Inr c', s') \<Longrightarrow> gap c' = gap c"
  by (auto simp: add_function_entered_def Let_def split: sum.splits dest: insert_before_gap)

lemma visit_gap: "visit c entered s = (Inr c', s') \<Longrightarrow> gap c' = gap c"
  unfolding visit_def
  by (cases entered)
     (auto split: sum.splits if_splits prod.splits
        dest!: add_bool_gap add_cmp_gap add_entered_gap)

lemma next_gap: "fst (it_next c) \<Longrightarrow> gap (snd (it_next c)) = gap c - 1 \<and> 1 < gap c"
  by (auto simp: it_next_def gap_def split: if_splits)

text \<open>The loop of lines 64-77.\<close>

function walk :: "cursor \<Rightarrow> bool \<Rightarrow> coord \<Rightarrow> (error + cursor) \<times> coord" where
  "walk c entered s =
     (if fst (it_next c) then
        (case visit (snd (it_next c)) entered s of
           (Inl e, s1) \<Rightarrow> (Inl e, s1)
         | (Inr c1, s1) \<Rightarrow> walk c1 True s1)
      else (Inr (snd (it_next c)), s))"
  by pat_completeness auto
termination
proof (relation "measure (\<lambda>(c, entered, s). nat (gap c))", goal_cases)
  case 1
  show ?case by simp
next
  case (2 c entered s x y c1)
  then have "visit (snd (it_next c)) entered s = (Inr c1, y)" by simp
  then have "gap c1 = gap (snd (it_next c))" by (rule visit_gap)
  with next_gap [OF 2(1)] show ?case by simp
qed

declare walk.simps [simp del]

text \<open>
  Lines 61-78: \<^verbatim>\<open>Bytecode.from_code\<close> gives the instruction list, the loop rewrites
  it in place, and \<^verbatim>\<open>to_code\<close> turns the rewritten list into the new code object.
\<close>

definition instrument_pass :: "elem list \<Rightarrow> coord \<Rightarrow> (error + elem list) \<times> coord" where
  "instrument_pass instructions s =
     (case walk (ListIterator instructions) False s of
        (Inl e, s1) \<Rightarrow> (Inl e, s1)
      | (Inr c, s1) \<Rightarrow> (Inr (items c), s1))"

text \<open>
  A code object: its constant pool \<^verbatim>\<open>co_consts\<close>, whose entries are plain values or
  nested code objects (\<^verbatim>\<open>hasattr(const, "co_code")\<close>), and its instructions. The
  two library functions \<^verbatim>\<open>Bytecode.from_code\<close> and \<^verbatim>\<open>to_code\<close> are taken as
  reading and writing the instruction list of the unit; the pool of the result is the one
  that \<^verbatim>\<open>code.replace\<close> stored.
\<close>

datatype const = KVal pyval | KCode code
  and code = Code (co_consts: "const list") (co_instrs: "elem list")

text \<open>\<^verbatim>\<open>_instrument_code_recursive\<close> (lines 49-78), with the loop over the pool.\<close>

fun instrument_code_recursive :: "code \<Rightarrow> coord \<Rightarrow> (error + code) \<times> coord"
  and instrument_consts :: "const list \<Rightarrow> coord \<Rightarrow> (error + const list) \<times> coord"
where
  "instrument_code_recursive (Code ks xs) s =
     (case instrument_consts ks s of
        (Inl e, s1) \<Rightarrow> (Inl e, s1)
      | (Inr new_consts, s1) \<Rightarrow>
          (case instrument_pass xs s1 of
             (Inl e, s2) \<Rightarrow> (Inl e, s2)
           | (Inr xs', s2) \<Rightarrow> (Inr (Code new_consts xs'), s2)))"
| "instrument_consts [] s = (Inr [], s)"
| "instrument_consts (KVal v # ks) s =
     (case instrument_consts ks s of
        (Inl e, s1) \<Rightarrow> (Inl e, s1)
      | (Inr ks', s1) \<Rightarrow> (Inr (KVal v # ks'), s1))"
| "instrument_consts (KCode c # ks) s =
     (case instrument_code_recursive c s of
        (Inl e, s1) \<Rightarrow> (Inl e, s1)
      | (Inr c', s1) \<Rightarrow>
          (case instrument_consts ks s1 of
             (Inl e, s2) \<Rightarrow> (Inl e, s2)
           | (Inr ks', s2) \<Rightarrow> (Inr (KCode c' # ks'), s2)))"

section \<open>Objects\<close>

text \<open>
  Objects live in a heap and are referred to by their position in it. An object carries
  what the instrumentation reads and writes: how \<^verbatim>\<open>inspect\<close> classifies it
  (\<^verbatim>\<open>isfunction\<close>, \<^verbatim>\<open>isclass\<close>, \<^verbatim>\<open>ismethod\<close>, or none of them), the result
  of \<^verbatim>\<open>inspect.getmembers\<close> on it (names with the referenced objects), its own
  attributes, and for a function its \<^verbatim>\<open>__globals__\<close> and \<^verbatim>\<open>__code__\<close>.
  The globals of a function are the dictionary of its module, shared with the other
  functions of that module: they are kept in a store of their own and a function holds the
  key of its dictionary.
\<close>

datatype kind = Function | Class | Method | Opaque

record pyobject =
  okind :: kind
  omembers :: "(string \<times> nat) list"
  oattrs :: "string \<rightharpoonup> pyval"
  oglobals :: nat
  ocode :: code

record world =
  self :: coord
  heap :: "pyobject list"
  globals :: "nat \<Rightarrow> (string \<rightharpoonup> pyval)"

definition obj_at :: "world \<Rightarrow> nat \<Rightarrow> pyobject option" where
  "obj_at w r = (if r < length (heap w) then Some (heap w ! r) else None)"

definition isfunction :: "world \<Rightarrow> nat \<Rightarrow> bool" where
  "isfunction w r = (case obj_at w r of None \<Rightarrow> False | Some ob \<Rightarrow> okind ob = Function)"

definition isclass :: "world \<Rightarrow> nat \<Rightarrow> bool" where
  "isclass w r = (case obj_at w r of None \<Rightarrow> False | Some ob \<Rightarrow> okind ob = Class)"

definition ismethod :: "world \<Rightarrow> nat \<Rightarrow> bool" where
  "ismethod w r = (case obj_at w r of None \<Rightarrow> False | Some ob \<Rightarrow> okind ob = Method)"

definition getmembers :: "world \<Rightarrow> nat \<Rightarrow> (string \<times> nat) list" where
  "getmembers w r = (case obj_at w r of None \<Rightarrow> [] | Some ob \<Rightarrow> omembers ob)"

definition hasattr :: "pyobject \<Rightarrow> string \<Rightarrow> bool" where
  "hasattr ob n = (oattrs ob n \<noteq> None)"

text \<open>Line 43: \<^verbatim>\<open>setattr(to_instrument, "instrumented", True)\<close>.\<close>

definition set_instrumented :: "nat \<Rightarrow> world \<Rightarrow> world" where
  "set_instrumented f w =
     (case obj_at w f of
        None \<Rightarrow> w
      | Some ob \<Rightarrow>
          w\<lparr>heap := (heap w)[f := ob\<lparr>oattrs := (oattrs ob)(INSTRUMENTED_FLAG \<mapsto> VBool True)\<rparr>]\<rparr>)"

text \<open>Line 46: \<^verbatim>\<open>to_instrument.__globals__["tracer"] = self._tracer\<close>.\<close>

definition install_tracer :: "nat \<Rightarrow> world \<Rightarrow> world" where
  "install_tracer f w =
     (case obj_at w f of
        None \<Rightarrow> w
      | Some ob \<Rightarrow>
          w\<lparr>globals := (globals w)
               (oglobals ob := (globals w (oglobals ob))(TRACER_NAME \<mapsto> tracer (self w)))\<rparr>)"

text \<open>
  Line 47: \<^verbatim>\<open>to_instrument.__code__ = self._instrument_code_recursive(...)\<close>.
  The code is stored only when the instrumentation returns.
\<close>

definition replace_code :: "nat \<Rightarrow> world \<Rightarrow> (error + unit) \<times> world" where
  "replace_code f w =
     (case obj_at w f of
        None \<Rightarrow> (Inl AttributeError, w)
      | Some ob \<Rightarrow>
          (case instrument_code_recursive (ocode ob) (self w) of
             (Inl e, s) \<Rightarrow> (Inl e, w\<lparr>self := s\<rparr>)
           | (Inr c, s) \<Rightarrow> (Inr (), w\<lparr>self := s, heap := (heap w)[f := ob\<lparr>ocode := c\<rparr>]\<rparr>)))"

text \<open>
  \<^verbatim>\<open>instrument_function\<close> (lines 37-47): the assertion, then the three
  assignments in their order. A reference that points outside the heap denotes no
  function; the model answers it with an error and changes nothing.
\<close>

definition instrument_function :: "nat \<Rightarrow> world \<Rightarrow> (error + unit) \<times> world" where
  "instrument_function f w =
     (case obj_at w f of
        None \<Rightarrow> (Inl AttributeError, w)
      | Some ob \<Rightarrow>
          if hasattr ob INSTRUMENTED_FLAG then (Inl AssertionError, w)
          else replace_code f (install_tracer f (set_instrumented f w)))"

lemma instrument_function_length:
  "length (heap (snd (instrument_function f w))) = length (heap w)"
  by (auto simp: instrument_function_def replace_code_def install_tracer_def
      set_instrumented_def obj_at_def split: option.splits prod.splits sum.splits)

text \<open>The objects of the heap that the walk has not visited yet.\<close>

definition unseen :: "nat set \<Rightarrow> world \<Rightarrow> nat" where
  "unseen seen w = card ({..<length (heap w)} - seen)"

lemma function_step_length:
  "(r, y) = (if isfunction w v then instrument_function v w else (Inr (), w)) \<Longrightarrow>
   length (heap y) = length (heap w)"
  using instrument_function_length [of v w]
  by (cases "isfunction w v") (auto dest: arg_cong [where f = snd])

lemma unseen_insert:
  "obj \<notin> seen \<Longrightarrow> obj < length (heap w) \<Longrightarrow> unseen (insert obj seen) w < unseen seen w"
  unfolding unseen_def
  by (rule psubset_card_mono) auto

lemma unseen_mono:
  "seen \<subseteq> seen' \<Longrightarrow> length (heap w') = length (heap w) \<Longrightarrow> unseen seen' w' \<le> unseen seen w"
  unfolding unseen_def
  by (rule card_mono) auto

lemma unseen_outside:
  "\<not> obj < length (heap w) \<Longrightarrow> unseen (insert obj seen) w = unseen seen w"
  unfolding unseen_def
  by (rule arg_cong [where f = card]) auto

lemma getmembers_outside: "\<not> obj < length (heap w) \<Longrightarrow> getmembers w obj = []"
  by (simp add: getmembers_def obj_at_def)

text \<open>
  \<^verbatim>\<open>instrument\<close> (lines 124-147) and its loop over the members. The set
  \<^verbatim>\<open>seen\<close> is one Python object that all recursive calls mutate, so it is
  passed in and returned. \<^verbatim>\<open>if not seen: seen = set()\<close> replaces a missing or
  empty set by a new empty set, which is the same value. The members are enumerated once,
  before the loop starts.
\<close>

function instrument :: "nat \<Rightarrow> nat set \<Rightarrow> world \<Rightarrow> (error + unit) \<times> nat set \<times> world"
  and instrument_members ::
    "(string \<times> nat) list \<Rightarrow> nat set \<Rightarrow> world \<Rightarrow> (error + unit) \<times> nat set \<times> world"
where
  "instrument obj seen w =
     (if obj \<in> seen then (Inr (), seen, w)
      else instrument_members (getmembers w obj) (insert obj seen) w)"
| "instrument_members [] seen w = (Inr (), seen, w)"
| "instrument_members ((n, v) # ms) seen w =
     (case (if isfunction w v then instrument_function v w else (Inr (), w)) of
        (Inl e, w1) \<Rightarrow> (Inl e, seen, w1)
      | (Inr u, w1) \<Rightarrow>
          (case (if isclass w1 v \<or> ismethod w1 v then instrument v seen w1
                 else (Inr (), seen, w1)) of
             (Inl e, seen2, w2) \<Rightarrow> (Inl e, seen2, w2)
           | (Inr u2, seen2, w2) \<Rightarrow> instrument_members ms seen2 w2))"
  by pat_completeness auto
termination
proof -
  have grows:
    "instrument_instrument_members_dom (Inl (obj, seen, w)) \<Longrightarrow>
       seen \<subseteq> fst (snd (instrument obj seen w)) \<and>
       length (heap (snd (snd (instrument obj seen w)))) = length (heap w)"
    "instrument_instrument_members_dom (Inr (ms, seen, w)) \<Longrightarrow>
       seen \<subseteq> fst (snd (instrument_members ms seen w)) \<and>
       length (heap (snd (snd (instrument_members ms seen w)))) = length (heap w)"
    for obj seen w ms
  proof (induction obj seen w and ms seen w rule: instrument_instrument_members.pinduct)
    case (1 obj seen w)
    then show ?case by (auto simp: instrument.psimps)
  next
    case (2 seen w)
    then show ?case by (simp add: instrument_members.psimps)
  next
    case (3 n v ms seen w)
    obtain r1 w1 where e1:
      "(if isfunction w v then instrument_function v w else (Inr (), w)) = (r1, w1)"
      by (cases "if isfunction w v then instrument_function v w else (Inr (), w)") auto
    have len1: "length (heap w1) = length (heap w)"
      using e1 [symmetric] by (rule function_step_length)
    show ?case
    proof (cases r1)
      case (Inl e)
      with e1 len1 show ?thesis by (simp add: instrument_members.psimps(2) [OF 3(1)])
    next
      case (Inr b)
      obtain r2 seen2 w2 where e2:
        "(if isclass w1 v \<or> ismethod w1 v then instrument v seen w1
          else (Inr (), seen, w1)) = (r2, seen2, w2)"
        by (cases "if isclass w1 v \<or> ismethod w1 v then instrument v seen w1
          else (Inr (), seen, w1)") auto
      have g2: "seen \<subseteq> seen2 \<and> length (heap w2) = length (heap w1)"
      proof (cases "isclass w1 v \<or> ismethod w1 v")
        case True
        from "3.IH"(1) [OF e1 [symmetric] Inr True] e2 True show ?thesis by simp
      next
        case False
        with e2 show ?thesis by simp
      qed
      show ?thesis
      proof (cases r2)
        case (Inl e)
        with e1 e2 Inr g2 len1 show ?thesis
          by (simp add: instrument_members.psimps(2) [OF 3(1)])
      next
        case r2: (Inr b2)
        from "3.IH"(2) [OF e1 [symmetric] Inr e2 [symmetric] r2 refl]
        have "seen2 \<subseteq> fst (snd (instrument_members ms seen2 w2)) \<and>
          length (heap (snd (snd (instrument_members ms seen2 w2)))) = length (heap w2)" .
        with e1 e2 Inr r2 g2 len1 show ?thesis
          by (auto simp: instrument_members.psimps(2) [OF 3(1)])
      qed
    qed
  qed
  show ?thesis
  proof (relation "measures [\<lambda>x. case x of Inl (obj, seen, w) \<Rightarrow> unseen seen w
                                        | Inr (ms, seen, w) \<Rightarrow> unseen seen w,
                            \<lambda>x. case x of Inl (obj, seen, w) \<Rightarrow> 1
                                        | Inr (ms, seen, w) \<Rightarrow> 2 * length ms]", goal_cases)
    case 1
    show ?case by simp
  next
    case (2 obj seen w)
    show ?case
    proof (cases "obj < length (heap w)")
      case True
      with 2 unseen_insert [of obj seen w] show ?thesis by simp
    next
      case False
      then show ?thesis by (simp add: unseen_outside getmembers_outside)
    qed
  next
    case (3 n v ms seen w x y b)
    then have "length (heap y) = length (heap w)"
      by (auto dest: function_step_length)
    then have "unseen seen y = unseen seen w" by (simp add: unseen_def)
    then show ?case by simp
  next
    case (4 n v ms seen w x y b xa ya ba xb yb)
    from 4 have len1: "length (heap y) = length (heap w)"
      by (auto dest: function_step_length)
    have "seen \<subseteq> xb \<and> length (heap yb) = length (heap y)"
    proof (cases "isclass y v \<or> ismethod y v")
      case True
      with 4 have "instrument_instrument_members_dom (Inl (v, seen, y))" by simp
      from grows(1) [OF this] 4 True show ?thesis
        by (metis fst_conv snd_conv)
    next
      case False
      with 4 show ?thesis by auto
    qed
    with len1 have "unseen xb yb \<le> unseen seen w" by (simp add: unseen_mono)
    then show ?case by auto
  qed
qed

declare instrument.simps [simp del]

text \<open>The call \<^verbatim>\<open>instrument(obj)\<close>, where \<^verbatim>\<open>seen\<close> is \<^verbatim>\<open>None\<close>.\<close>

definition instrument_root :: "nat \<Rightarrow> world \<Rightarrow> (error + unit) \<times> nat set \<times> world" where
  "instrument_root obj w = instrument obj {} w"

section \<open>The instrumented sequence, position by position\<close>

text \<open>The number of conditional branches of an instruction list.\<close>

definition n_branches :: "elem list \<Rightarrow> nat" where
  "n_branches xs = length (filter cond_branch xs)"

text \<open>
  The result of one pass, described following the specification (section 4.3, steps 3 and
  4) as a list of pieces: each original element, in order, and the probes placed between
  them. A function-entered probe comes first. A conditional branch whose preceding element
  is a comparison has a comparison probe before that comparison; any other conditional
  branch has a boolean probe directly before it. The predicate IDs count up along the list.
\<close>

datatype piece = Original elem | EnteredProbe int | BoolProbe int | CmpProbe int arg

fun render :: "piece \<Rightarrow> elem list" where
  "render (Original x) = [x]"
| "render (EnteredProbe fid) = function_entered_stmts fid"
| "render (BoolProbe pid) = bool_predicate_stmts pid"
| "render (CmpProbe pid op) = cmp_predicate_stmts pid op"

definition flatten :: "piece list \<Rightarrow> elem list" where
  "flatten ps = concat (map render ps)"

text \<open>
  \<open>weave p l xs\<close> lays out the element \<open>l\<close> and the elements \<open>xs\<close> that follow it,
  where \<open>p\<close> is the next predicate ID.
\<close>

fun weave :: "int \<Rightarrow> elem \<Rightarrow> elem list \<Rightarrow> piece list" where
  "weave p l [] = [Original l]"
| "weave p l (x # xs) =
     (if cond_branch x then
        (if is_compare l then CmpProbe p (iarg l) # Original l # weave (p + 1) x xs
         else Original l # BoolProbe p # weave (p + 1) x xs)
      else Original l # weave p x xs)"

definition plan :: "int \<Rightarrow> int \<Rightarrow> elem list \<Rightarrow> piece list" where
  "plan p f xs =
     (case xs of
        [] \<Rightarrow> []
      | x # rest \<Rightarrow>
          EnteredProbe f #
            (if cond_branch x then BoolProbe p # weave (p + 1) x rest else weave p x rest))"

text \<open>
  The state of the instrumentation object after \<open>n\<close> predicates, or one function, have
  been given their IDs and registered with the tracer.
\<close>

definition register_predicates :: "nat \<Rightarrow> coord \<Rightarrow> coord" where
  "register_predicates n s =
     s\<lparr>predicate_id := predicate_id s + int n,
       tracer_log := tracer_log s
          @ map PredicateExists [predicate_id s .. predicate_id s + int n - 1]\<rparr>"

definition register_function :: "coord \<Rightarrow> coord" where
  "register_function s =
     s\<lparr>function_id := function_id s + 1,
       tracer_log := tracer_log s @ [FunctionExists (function_id s)]\<rparr>"

definition after_pass :: "elem list \<Rightarrow> coord \<Rightarrow> coord" where
  "after_pass xs s =
     (if xs = [] then s else register_predicates (n_branches xs) (register_function s))"

text \<open>What a plan holds: its original elements, and how many probes of each kind.\<close>

fun originals :: "piece list \<Rightarrow> elem list" where
  "originals [] = []"
| "originals (Original x # ps) = x # originals ps"
| "originals (EnteredProbe f # ps) = originals ps"
| "originals (BoolProbe p # ps) = originals ps"
| "originals (CmpProbe p a # ps) = originals ps"

fun predicate_probes :: "piece list \<Rightarrow> nat" where
  "predicate_probes [] = 0"
| "predicate_probes (Original x # ps) = predicate_probes ps"
| "predicate_probes (EnteredProbe f # ps) = predicate_probes ps"
| "predicate_probes (BoolProbe p # ps) = Suc (predicate_probes ps)"
| "predicate_probes (CmpProbe p a # ps) = Suc (predicate_probes ps)"

fun entered_probes :: "piece list \<Rightarrow> nat" where
  "entered_probes [] = 0"
| "entered_probes (Original x # ps) = entered_probes ps"
| "entered_probes (EnteredProbe f # ps) = Suc (entered_probes ps)"
| "entered_probes (BoolProbe p # ps) = entered_probes ps"
| "entered_probes (CmpProbe p a # ps) = entered_probes ps"

section \<open>The walker computes the described sequence\<close>

lemma cursor_next_more:
  "it_next \<lparr>items = pre @ l # x # xs, idx = int (length pre)\<rparr>
     = (True, \<lparr>items = pre @ l # x # xs, idx = int (length pre) + 1\<rparr>)"
  by (simp add: it_next_def)

lemma cursor_next_end:
  "it_next \<lparr>items = pre @ [l], idx = int (length pre)\<rparr>
     = (False, \<lparr>items = pre @ [l], idx = int (length pre)\<rparr>)"
  by (simp add: it_next_def)

lemma cursor_current:
  "it_current \<lparr>items = pre @ l # x # xs, idx = int (length pre) + 1\<rparr> = Inr x"
  by (simp add: it_current_def nth_append nat_add_distrib)

lemma cursor_previous:
  "it_previous \<lparr>items = pre @ l # x # xs, idx = int (length pre) + 1\<rparr> = Inr l"
  by (simp add: it_previous_def it_has_previous_def nth_append)

lemma cursor_has_previous:
  "it_has_previous \<lparr>items = pre @ l # x # xs, idx = int (length pre) + 1\<rparr>"
  by (simp add: it_has_previous_def)

lemma cursor_insert_here:
  "it_insert_before ins 0 \<lparr>items = pre @ l # x # xs, idx = int (length pre) + 1\<rparr>
     = Inr \<lparr>items = (pre @ l # ins) @ x # xs, idx = int (length (pre @ l # ins))\<rparr>"
  by (simp add: it_insert_before_def nat_add_distrib)

lemma cursor_insert_back:
  "it_insert_before ins 1 \<lparr>items = pre @ l # x # xs, idx = int (length pre) + 1\<rparr>
     = Inr \<lparr>items = (pre @ ins @ [l]) @ x # xs, idx = int (length (pre @ ins @ [l]))\<rparr>"
  by (simp add: it_insert_before_def)

lemma register_Suc:
  "register_predicates n (register_predicates (Suc 0) s) = register_predicates (Suc n) s"
  by (simp add: register_predicates_def upto_rec1 [of "predicate_id s"] add.commute add.left_commute)

lemma register_zero: "register_predicates 0 s = s"
  by (simp add: register_predicates_def)

lemma visit_plain:
  "\<not> cond_branch x \<Longrightarrow>
   visit \<lparr>items = pre @ l # x # xs, idx = int (length pre) + 1\<rparr> True s
     = (Inr \<lparr>items = (pre @ [l]) @ x # xs, idx = int (length (pre @ [l]))\<rparr>, s)"
  by (simp add: visit_def cursor_current)

lemma visit_cmp:
  "cond_branch x \<Longrightarrow> is_compare l \<Longrightarrow>
   visit \<lparr>items = pre @ l # x # xs, idx = int (length pre) + 1\<rparr> True s
     = (Inr \<lparr>items = (pre @ cmp_predicate_stmts (predicate_id s) (iarg l) @ [l]) @ x # xs,
             idx = int (length (pre @ cmp_predicate_stmts (predicate_id s) (iarg l) @ [l]))\<rparr>,
        register_predicates 1 s)"
  unfolding visit_def add_cmp_predicate_def
  by (simp add: cursor_current cursor_previous cursor_has_previous cursor_insert_back
      Let_def is_compare_def call_tracer_def register_predicates_def del: append_assoc)

lemma visit_bool:
  "cond_branch x \<Longrightarrow> \<not> is_compare l \<Longrightarrow>
   visit \<lparr>items = pre @ l # x # xs, idx = int (length pre) + 1\<rparr> True s
     = (Inr \<lparr>items = (pre @ l # bool_predicate_stmts (predicate_id s)) @ x # xs,
             idx = int (length (pre @ l # bool_predicate_stmts (predicate_id s)))\<rparr>,
        register_predicates 1 s)"
  unfolding visit_def add_bool_predicate_def
  by (simp add: cursor_current cursor_previous cursor_has_previous cursor_insert_here
      Let_def call_tracer_def register_predicates_def del: append_assoc)

lemma walk_step:
  "visit \<lparr>items = pre @ l # x # xs, idx = int (length pre) + 1\<rparr> True s = (Inr c1, s1) \<Longrightarrow>
   walk \<lparr>items = pre @ l # x # xs, idx = int (length pre)\<rparr> True s = walk c1 True s1"
  by (subst walk.simps) (simp add: cursor_next_more)

lemma walk_tail:
  "walk \<lparr>items = pre @ l # rest, idx = int (length pre)\<rparr> True s
     = (Inr \<lparr>items = pre @ flatten (weave (predicate_id s) l rest),
             idx = int (length (pre @ flatten (weave (predicate_id s) l rest))) - 1\<rparr>,
        register_predicates (n_branches rest) s)"
proof (induction rest arbitrary: pre l s)
  case Nil
  show ?case
    by (subst walk.simps) (simp add: cursor_next_end flatten_def n_branches_def register_zero)
next
  case (Cons x xs)
  have p1: "predicate_id (register_predicates (Suc 0) s) = predicate_id s + 1"
    by (simp add: register_predicates_def)
  consider (plain) "\<not> cond_branch x" | (cmp) "cond_branch x" "is_compare l"
    | (bool) "cond_branch x" "\<not> is_compare l" by blast
  then show ?case
  proof cases
    case plain
    show ?thesis
      unfolding walk_step [OF visit_plain [OF plain]] Cons.IH
      using plain by (simp add: flatten_def n_branches_def)
  next
    case cmp
    show ?thesis
      unfolding walk_step [OF visit_cmp [OF cmp]] Cons.IH
      using cmp by (simp add: flatten_def n_branches_def p1 register_Suc)
  next
    case bool
    show ?thesis
      unfolding walk_step [OF visit_bool [OF bool]] Cons.IH
      using bool by (simp add: flatten_def n_branches_def p1 register_Suc)
  qed
qed

lemma visit_first_plain:
  "\<not> cond_branch x \<Longrightarrow>
   visit \<lparr>items = x # xs, idx = 0\<rparr> False s
     = (Inr \<lparr>items = function_entered_stmts (function_id s) @ x # xs,
             idx = int (length (function_entered_stmts (function_id s)))\<rparr>,
        register_function s)"
  unfolding visit_def add_function_entered_def
  by (simp add: it_insert_before_def it_current_def Let_def call_tracer_def
      register_function_def function_entered_stmts_def)

lemma visit_first_branch:
  "cond_branch x \<Longrightarrow>
   visit \<lparr>items = x # xs, idx = 0\<rparr> False s
     = (Inr \<lparr>items = (function_entered_stmts (function_id s)
                        @ bool_predicate_stmts (predicate_id s)) @ x # xs,
             idx = int (length (function_entered_stmts (function_id s)
                        @ bool_predicate_stmts (predicate_id s)))\<rparr>,
        register_predicates (Suc 0) (register_function s))"
  unfolding visit_def add_function_entered_def add_bool_predicate_def
  by (simp add: it_insert_before_def it_current_def it_has_previous_def it_previous_def
      Let_def call_tracer_def register_function_def register_predicates_def
      function_entered_stmts_def bool_predicate_stmts_def is_compare_def)

lemma walk_first:
  "visit \<lparr>items = x # xs, idx = 0\<rparr> False s = (Inr c1, s1) \<Longrightarrow>
   walk (ListIterator (x # xs)) False s = walk c1 True s1"
  by (subst walk.simps) (simp add: ListIterator_def it_next_def)

lemma walk_empty: "walk (ListIterator []) False s = (Inr (ListIterator []), s)"
  by (subst walk.simps) (simp add: ListIterator_def it_next_def)

lemma instrument_pass_Nil: "instrument_pass [] s = (Inr [], s)"
  by (simp add: instrument_pass_def walk_empty) (simp add: ListIterator_def)

lemma instrument_pass_Cons:
  "instrument_pass (x # xs) s
     = (Inr (flatten (plan (predicate_id s) (function_id s) (x # xs))), after_pass (x # xs) s)"
proof (cases "cond_branch x")
  case True
  have p: "predicate_id (register_predicates (Suc 0) (register_function s)) = predicate_id s + 1"
    by (simp add: register_predicates_def register_function_def)
  show ?thesis
    unfolding instrument_pass_def walk_first [OF visit_first_branch [OF True]] walk_tail
    using True
    by (simp add: plan_def flatten_def after_pass_def n_branches_def p register_Suc)
next
  case False
  have p: "predicate_id (register_function s) = predicate_id s"
    by (simp add: register_function_def)
  show ?thesis
    unfolding instrument_pass_def walk_first [OF visit_first_plain [OF False]] walk_tail
    using False
    by (simp add: plan_def flatten_def after_pass_def n_branches_def p)
qed

lemma instrument_pass_eq:
  "instrument_pass xs s
     = (Inr (flatten (plan (predicate_id s) (function_id s) xs)), after_pass xs s)"
  by (cases xs)
     (simp_all add: instrument_pass_Nil instrument_pass_Cons plan_def flatten_def after_pass_def)

section \<open>Stack neutrality of the probes\<close>

text \<open>
  The change of the depth of the evaluation stack that each opcode used by the probes
  makes, as CPython 3.8 defines it: \<^verbatim>\<open>LOAD_METHOD\<close> replaces the object by two
  entries, and \<^verbatim>\<open>CALL_METHOD n\<close> removes the \<open>n\<close> arguments and those two entries
  and pushes the result. Opcodes outside the table have no entry.
\<close>

fun stack_effect :: "elem \<Rightarrow> int option" where
  "stack_effect (Instr n a) =
     (if n = ''DUP_TOP'' then Some 1
      else if n = ''DUP_TOP_TWO'' then Some 2
      else if n = ''LOAD_GLOBAL'' then Some 1
      else if n = ''LOAD_METHOD'' then Some 1
      else if n = ''LOAD_CONST'' then Some 1
      else if n = ''ROT_THREE'' then Some 0
      else if n = ''ROT_FOUR'' then Some 0
      else if n = ''POP_TOP'' then Some (- 1)
      else if n = ''CALL_METHOD'' then
        (case a of IntArg k \<Rightarrow> Some (- k - 1) | _ \<Rightarrow> None)
      else None)"
| "stack_effect (Label l) = Some 0"
| "stack_effect (SetLineno l) = Some 0"

text \<open>The depth change of a list of instructions, summed from its entry to its exit.\<close>

fun net_effect :: "elem list \<Rightarrow> int option" where
  "net_effect [] = Some 0"
| "net_effect (x # xs) =
     (case stack_effect x of
        None \<Rightarrow> None
      | Some d \<Rightarrow> (case net_effect xs of None \<Rightarrow> None | Some r \<Rightarrow> Some (d + r)))"

text \<open>
  Claim C3. Each of the three probes (function-entered, boolean-predicate,
  comparison-predicate) has a net stack depth change of exactly zero, whatever the ID and
  whatever the comparison operator: every opcode of the probe is in the table and the
  changes sum to zero.
\<close>

theorem probes_stack_neutral:
  "net_effect (function_entered_stmts fid) = Some 0
   \<and> net_effect (bool_predicate_stmts pid) = Some 0
   \<and> net_effect (cmp_predicate_stmts pid op) = Some 0"
  by (simp add: function_entered_stmts_def bool_predicate_stmts_def cmp_predicate_stmts_def)

section \<open>Coverage of the injection points\<close>

lemma weave_originals: "originals (weave p l xs) = l # xs"
  by (induction xs arbitrary: p l) auto

lemma weave_predicate_probes: "predicate_probes (weave p l xs) = n_branches xs"
  by (induction xs arbitrary: p l) (auto simp: n_branches_def)

lemma weave_entered_probes: "entered_probes (weave p l xs) = 0"
  by (induction xs arbitrary: p l) auto

lemma plan_originals: "originals (plan p f xs) = xs"
  by (cases xs) (simp_all add: plan_def weave_originals)

lemma plan_predicate_probes: "predicate_probes (plan p f xs) = n_branches xs"
  by (cases xs) (simp_all add: plan_def weave_predicate_probes n_branches_def)

lemma plan_entered_probes: "entered_probes (plan p f xs) = (if xs = [] then 0 else 1)"
  by (cases xs) (simp_all add: plan_def weave_entered_probes)

lemma instrument_never_fails:
  "\<exists>c' s'. instrument_code_recursive c s = (Inr c', s')"
  "\<exists>ks' s'. instrument_consts ks s = (Inr ks', s')"
proof (induction c s and ks s rule: instrument_code_recursive_instrument_consts.induct)
  case (1 ks xs s)
  then show ?case by (auto simp: instrument_pass_eq)
next
  case (2 s)
  show ?case by simp
next
  case (3 v ks s)
  then show ?case by auto
next
  case (4 c ks s)
  then show ?case by (auto split: prod.splits sum.splits) 
qed

text \<open>
  Claim C1, as amended. A code unit whose instruction list is not empty and contains
  \<open>k\<close> conditional branches comes out of \<^verbatim>\<open>_instrument_code_recursive\<close> with
  exactly \<open>k\<close> predicate probes and exactly one function-entered probe in its own
  instruction list, whatever its constant pool holds and however deep it is nested: the
  nested units are instrumented first and never fail, the new list is the rendering of a
  plan that keeps the original elements in order, and the pass consumes \<open>k\<close> predicate
  IDs and one function ID.
\<close>

theorem probe_count:
  assumes "xs \<noteq> []"
  shows "\<exists>ks' s1.
      instrument_consts ks s = (Inr ks', s1)
      \<and> instrument_code_recursive (Code ks xs) s
          = (Inr (Code ks' (flatten (plan (predicate_id s1) (function_id s1) xs))),
             after_pass xs s1)
      \<and> originals (plan (predicate_id s1) (function_id s1) xs) = xs
      \<and> predicate_probes (plan (predicate_id s1) (function_id s1) xs) = n_branches xs
      \<and> entered_probes (plan (predicate_id s1) (function_id s1) xs) = 1
      \<and> predicate_id (after_pass xs s1) = predicate_id s1 + int (n_branches xs)
      \<and> function_id (after_pass xs s1) = function_id s1 + 1"
proof -
  obtain ks' s1 where k: "instrument_consts ks s = (Inr ks', s1)"
    using instrument_never_fails(2) by blast
  have "predicate_id (after_pass xs s1) = predicate_id s1 + int (n_branches xs)"
    "function_id (after_pass xs s1) = function_id s1 + 1"
    using assms by (simp_all add: after_pass_def register_predicates_def register_function_def)
  with k assms show ?thesis
    by (simp add: instrument_pass_eq plan_originals plan_predicate_probes plan_entered_probes)
qed

text \<open>
  The theorem at a unit with one conditional branch and one nested unit.
\<close>

theorem probe_count_witness:
  "[Instr ''LOAD_FAST'' (StrArg ''flag''), Instr ''POP_JUMP_IF_FALSE'' (LabelArg 0),
    Instr ''RETURN_VALUE'' NoArg] \<noteq> []
   \<and> (\<exists>ks' s1.
      instrument_consts [KCode (Code [] [Instr ''RETURN_VALUE'' NoArg])] (init VNone)
        = (Inr ks', s1)
      \<and> predicate_probes (plan (predicate_id s1) (function_id s1)
           [Instr ''LOAD_FAST'' (StrArg ''flag''), Instr ''POP_JUMP_IF_FALSE'' (LabelArg 0),
            Instr ''RETURN_VALUE'' NoArg]) = 1
      \<and> entered_probes (plan (predicate_id s1) (function_id s1)
           [Instr ''LOAD_FAST'' (StrArg ''flag''), Instr ''POP_JUMP_IF_FALSE'' (LabelArg 0),
            Instr ''RETURN_VALUE'' NoArg]) = 1)"
proof -
  let ?xs = "[Instr ''LOAD_FAST'' (StrArg ''flag''), Instr ''POP_JUMP_IF_FALSE'' (LabelArg 0),
    Instr ''RETURN_VALUE'' NoArg]"
  have h: "?xs \<noteq> []" by simp
  have n: "n_branches ?xs = 1" by (simp add: n_branches_def cond_branch_def)
  from probe_count [OF h, of "[KCode (Code [] [Instr ''RETURN_VALUE'' NoArg])]" "init VNone"]
  obtain ks' s1 where
    "instrument_consts [KCode (Code [] [Instr ''RETURN_VALUE'' NoArg])] (init VNone)
        = (Inr ks', s1)"
    "predicate_probes (plan (predicate_id s1) (function_id s1) ?xs) = n_branches ?xs"
    "entered_probes (plan (predicate_id s1) (function_id s1) ?xs) = 1"
    by blast
  with h n show ?thesis by auto
qed

text \<open>
  Claim C1 as stated fails for a unit without instructions: it has \<open>k = 0\<close> conditional
  branches, and the result has no function-entered probe instead of one; the state of the
  instrumentation is unchanged.
\<close>

theorem unit_without_branch_counterexample:
  "n_branches (co_instrs (Code [KVal VNone] [])) = 0
   \<and> instrument_code_recursive (Code [KVal VNone] []) (init VNone)
       = (Inr (Code [KVal VNone] []), init VNone)
   \<and> entered_probes (plan 0 0 (co_instrs (Code [KVal VNone] []))) \<noteq> 1"
  by (simp add: n_branches_def instrument_pass_Nil plan_def)

section \<open>Classification of the branches\<close>

lemma cond_branch_not_compare: "cond_branch x \<Longrightarrow> \<not> is_compare x"
  by (cases x) (auto simp: cond_branch_def is_compare_def)

lemma weave_not_Nil: "weave p l xs \<noteq> []"
  by (cases xs) auto

lemma weave_head: "\<not> is_compare l \<Longrightarrow> weave p l xs = Original l # tl (weave p l xs)"
  by (cases xs) auto

lemma weave_split:
  "weave p l (us @ m # vs)
     = butlast (weave p l (us @ [m])) @ weave (p + int (n_branches (us @ [m]))) m vs"
proof (induction us arbitrary: p l)
  case Nil
  show ?case by (simp add: n_branches_def)
next
  case (Cons u us)
  show ?case
    by (simp add: Cons.IH weave_not_Nil butlast_append n_branches_def add.assoc)
qed

lemma plan_split:
  "plan p f (us @ m # vs)
     = butlast (plan p f (us @ [m])) @ weave (p + int (n_branches (us @ [m]))) m vs"
proof (cases us)
  case Nil
  then show ?thesis by (simp add: plan_def n_branches_def)
next
  case (Cons u us')
  then show ?thesis
    by (simp add: plan_def weave_split [of _ u us' m vs] weave_not_Nil n_branches_def add.assoc)
qed

lemma flatten_append: "flatten (ps @ qs) = flatten ps @ flatten qs"
  by (simp add: flatten_def)

text \<open>
  Claim C2. Take any conditional branch \<open>x\<close> of a unit. If it has a preceding element
  \<open>l\<close> that is a \<^verbatim>\<open>COMPARE_OP\<close> instruction, the result has a comparison probe
  directly before \<open>l\<close>, followed by \<open>l\<close> and \<open>x\<close>; if \<open>l\<close> is anything else, the result
  has \<open>l\<close>, then a boolean probe, then \<open>x\<close>. If \<open>x\<close> is the first element of the unit, the
  result has the function-entered probe, then a boolean probe, then \<open>x\<close>. The probe
  carries the predicate ID that counts the conditional branches before \<open>x\<close>.
\<close>

theorem branch_classification:
  assumes "cond_branch x"
  shows "fst (instrument_pass (us @ l # x # vs) s)
      = Inr (flatten (butlast (plan (predicate_id s) (function_id s) (us @ [l])))
             @ (if is_compare l
                then cmp_predicate_stmts
                       (predicate_id s + int (n_branches (us @ [l]))) (iarg l) @ [l, x]
                else l # bool_predicate_stmts
                       (predicate_id s + int (n_branches (us @ [l]))) @ [x])
             @ flatten (tl (weave (predicate_id s + int (n_branches (us @ [l])) + 1) x vs)))
    \<and> fst (instrument_pass (x # vs) s)
      = Inr (function_entered_stmts (function_id s) @ bool_predicate_stmts (predicate_id s)
             @ x # flatten (tl (weave (predicate_id s + 1) x vs)))"
proof -
  have nc: "\<not> is_compare x" using assms by (rule cond_branch_not_compare)
  have hd: "flatten (weave r x vs) = x # flatten (tl (weave r x vs))" for r
    by (subst weave_head [OF nc]) (simp add: flatten_def)
  have a: "flatten (weave q l (x # vs))
      = (if is_compare l then cmp_predicate_stmts q (iarg l) @ [l, x]
         else l # bool_predicate_stmts q @ [x]) @ flatten (tl (weave (q + 1) x vs))" for q
    using assms hd [of "q + 1"] by (simp add: flatten_def)
  have first: "flatten (plan (predicate_id s) (function_id s) (x # vs))
      = function_entered_stmts (function_id s) @ bool_predicate_stmts (predicate_id s)
        @ x # flatten (tl (weave (predicate_id s + 1) x vs))"
    using assms hd [of "predicate_id s + 1"] by (simp add: plan_def flatten_def)
  show ?thesis
    by (simp only: instrument_pass_eq fst_conv plan_split [of _ _ us l "x # vs"]
        flatten_append a first append_assoc simp_thms)
qed

text \<open>
  The theorem at a comparison followed by a conditional jump.
\<close>

theorem branch_classification_witness:
  "cond_branch (Instr ''POP_JUMP_IF_FALSE'' (LabelArg 0))
   \<and> fst (instrument_pass
        ([Instr ''LOAD_FAST'' (StrArg ''a'')] @ Instr ''COMPARE_OP'' (CmpArg Cmp_LT)
           # Instr ''POP_JUMP_IF_FALSE'' (LabelArg 0) # []) (init VNone))
      = Inr (function_entered_stmts 0 @ [Instr ''LOAD_FAST'' (StrArg ''a'')]
             @ cmp_predicate_stmts 0 (CmpArg Cmp_LT)
             @ [Instr ''COMPARE_OP'' (CmpArg Cmp_LT), Instr ''POP_JUMP_IF_FALSE'' (LabelArg 0)])"
proof -
  have h: "cond_branch (Instr ''POP_JUMP_IF_FALSE'' (LabelArg 0))"
    by (simp add: cond_branch_def)
  from branch_classification [OF h, of "[Instr ''LOAD_FAST'' (StrArg ''a'')]"
      "Instr ''COMPARE_OP'' (CmpArg Cmp_LT)" "[]" "init VNone"] h
  show ?thesis
    by (simp add: plan_def flatten_def init_def n_branches_def cond_branch_def is_compare_def)
qed

section \<open>A branch with no previous element\<close>

text \<open>
  Claim C8. The walker is at a conditional branch and the cursor has no previous element,
  so that \<^verbatim>\<open>previous()\<close> would fail. The loop body does not fail: it inserts the
  boolean probe directly before the branch (after the function-entered probe, when that is
  still to be inserted) and registers one predicate.
\<close>

theorem branch_without_previous:
  assumes "\<not> it_has_previous c" and "it_current c = Inr x" and "cond_branch x"
  shows "it_previous c = Inl AssertionError
    \<and> visit c entered s
      = (Inr \<lparr>items = (if entered then [] else function_entered_stmts (function_id s))
                       @ bool_predicate_stmts (predicate_id s) @ items c,
              idx = int (length ((if entered then [] else function_entered_stmts (function_id s))
                       @ bool_predicate_stmts (predicate_id s)))\<rparr>,
         register_predicates 1 (if entered then s else register_function s))"
proof -
  from assms(1,2) have i: "idx c = 0"
    by (auto simp: it_has_previous_def it_current_def split: if_splits)
  with assms(2) obtain rest where it: "items c = x # rest"
    by (cases "items c") (auto simp: it_current_def)
  from i it have c: "c = \<lparr>items = x # rest, idx = 0\<rparr>" by simp
  have prev: "it_previous c = Inl AssertionError"
    using assms(1) by (simp add: it_previous_def)
  show ?thesis
  proof (cases entered)
    case True
    have "visit c True s
        = (Inr \<lparr>items = bool_predicate_stmts (predicate_id s) @ x # rest,
                idx = int (length (bool_predicate_stmts (predicate_id s)))\<rparr>,
           register_predicates 1 s)"
      unfolding c visit_def add_bool_predicate_def using assms(3)
      by (simp add: it_current_def it_has_previous_def it_insert_before_def Let_def
          call_tracer_def register_predicates_def)
    with True prev it show ?thesis by simp
  next
    case False
    with prev it assms(3) show ?thesis
      unfolding c by (simp add: visit_first_branch)
  qed
qed

text \<open>
  The theorem at a unit that starts with a conditional jump.
\<close>

theorem branch_without_previous_witness:
  "\<not> it_has_previous \<lparr>items = [Instr ''POP_JUMP_IF_TRUE'' (LabelArg 3)], idx = 0\<rparr>
   \<and> it_current \<lparr>items = [Instr ''POP_JUMP_IF_TRUE'' (LabelArg 3)], idx = 0\<rparr>
       = Inr (Instr ''POP_JUMP_IF_TRUE'' (LabelArg 3))
   \<and> cond_branch (Instr ''POP_JUMP_IF_TRUE'' (LabelArg 3))
   \<and> fst (visit \<lparr>items = [Instr ''POP_JUMP_IF_TRUE'' (LabelArg 3)], idx = 0\<rparr> True (init VNone))
       = Inr \<lparr>items = bool_predicate_stmts 0 @ [Instr ''POP_JUMP_IF_TRUE'' (LabelArg 3)],
              idx = 8\<rparr>"
proof -
  let ?c = "\<lparr>items = [Instr ''POP_JUMP_IF_TRUE'' (LabelArg 3)], idx = 0\<rparr>"
  have h1: "\<not> it_has_previous ?c" by (simp add: it_has_previous_def)
  have h2: "it_current ?c = Inr (Instr ''POP_JUMP_IF_TRUE'' (LabelArg 3))"
    by (simp add: it_current_def)
  have h3: "cond_branch (Instr ''POP_JUMP_IF_TRUE'' (LabelArg 3))"
    by (simp add: cond_branch_def)
  from branch_without_previous [OF h1 h2 h3, of True "init VNone"] h1 h2 h3
  show ?thesis by (simp add: init_def bool_predicate_stmts_def)
qed

section \<open>The comparison scenario\<close>

text \<open>
  Claim C6. The unit \<^verbatim>\<open>[LOAD a, LOAD b, COMPARE(<), JUMP_IF_FALSE L]\<close> with next
  predicate ID 7: the result is the function-entered probe, the two loads, then, before the
  comparison, \<^verbatim>\<open>DUP_TOP_TWO\<close> (both operands duplicated), the call of the tracer's
  \<^verbatim>\<open>passed_cmp_predicate\<close> with the two copies, the constant 7 and the operator
  \<^verbatim>\<open><\<close>, and \<^verbatim>\<open>POP_TOP\<close> (the result discarded), then the comparison and the
  jump as they were. The next predicate ID is 8.
\<close>

theorem comparison_scenario:
  assumes "predicate_id s = 7"
  shows "fst (instrument_pass
        [Instr ''LOAD_FAST'' (StrArg a), Instr ''LOAD_FAST'' (StrArg b),
         Instr ''COMPARE_OP'' (CmpArg Cmp_LT), Instr ''POP_JUMP_IF_FALSE'' (LabelArg L)] s)
     = Inr (function_entered_stmts (function_id s)
            @ [Instr ''LOAD_FAST'' (StrArg a), Instr ''LOAD_FAST'' (StrArg b)]
            @ [Instr ''DUP_TOP_TWO'' NoArg,
               Instr ''LOAD_GLOBAL'' (StrArg ''tracer''),
               Instr ''LOAD_METHOD'' (StrArg ''passed_cmp_predicate''),
               Instr ''ROT_FOUR'' NoArg,
               Instr ''ROT_FOUR'' NoArg,
               Instr ''LOAD_CONST'' (IntArg 7),
               Instr ''LOAD_CONST'' (CmpArg Cmp_LT),
               Instr ''CALL_METHOD'' (IntArg 4),
               Instr ''POP_TOP'' NoArg]
            @ [Instr ''COMPARE_OP'' (CmpArg Cmp_LT), Instr ''POP_JUMP_IF_FALSE'' (LabelArg L)])
    \<and> predicate_id (snd (instrument_pass
        [Instr ''LOAD_FAST'' (StrArg a), Instr ''LOAD_FAST'' (StrArg b),
         Instr ''COMPARE_OP'' (CmpArg Cmp_LT), Instr ''POP_JUMP_IF_FALSE'' (LabelArg L)] s)) = 8"
  using assms
  by (simp add: instrument_pass_eq plan_def flatten_def cond_branch_def is_compare_def
      cmp_predicate_stmts_def TRACER_NAME_def after_pass_def n_branches_def
      register_predicates_def register_function_def)

text \<open>
  The theorem for the names \<^verbatim>\<open>a\<close> and \<^verbatim>\<open>b\<close> and the label 12.
\<close>

theorem comparison_scenario_witness:
  "predicate_id ((init VNone)\<lparr>predicate_id := 7\<rparr>) = 7
   \<and> predicate_id (snd (instrument_pass
        [Instr ''LOAD_FAST'' (StrArg ''a''), Instr ''LOAD_FAST'' (StrArg ''b''),
         Instr ''COMPARE_OP'' (CmpArg Cmp_LT), Instr ''POP_JUMP_IF_FALSE'' (LabelArg 12)]
        ((init VNone)\<lparr>predicate_id := 7\<rparr>))) = 8"
proof -
  have h: "predicate_id ((init VNone)\<lparr>predicate_id := 7\<rparr>) = 7" by simp
  from comparison_scenario [OF h, of "''a''" "''b''" 12] h show ?thesis by blast
qed

section \<open>The unit without instructions\<close>

text \<open>
  Claim C9, as amended. A unit without instructions is returned without instructions: the
  loop body never runs, so no function-entered probe and no predicate probe is inserted and
  no ID is consumed. The state after the unit is the state after its nested units.
\<close>

theorem empty_unit_unchanged:
  "instrument_pass [] s = (Inr [], s)
   \<and> instrument_code_recursive (Code ks []) s
       = (case instrument_consts ks s of
            (Inl e, s1) \<Rightarrow> (Inl e, s1)
          | (Inr ks', s1) \<Rightarrow> (Inr (Code ks' []), s1))"
  by (simp add: instrument_pass_Nil split: prod.splits sum.splits)

text \<open>
  Claim C9 as stated fails: the empty unit comes back empty, not holding the
  function-entered probe, and the function ID is still 0.
\<close>

theorem empty_unit_counterexample:
  "instrument_code_recursive (Code [] []) (init VNone) = (Inr (Code [] []), init VNone)
   \<and> function_id (init VNone) = 0
   \<and> co_instrs (Code [] []) \<noteq> function_entered_stmts 0"
  by (simp add: instrument_pass_Nil init_def function_entered_stmts_def)

section \<open>Instrumenting one function\<close>

lemma replace_code_keeps_flag:
  "obj_at w f = Some ob \<Longrightarrow> hasattr ob n \<Longrightarrow>
   \<exists>ob'. obj_at (snd (replace_code f w)) f = Some ob' \<and> hasattr ob' n"
  by (auto simp: replace_code_def obj_at_def hasattr_def split: prod.splits sum.splits if_splits)

lemma replace_code_globals: "globals (snd (replace_code f w)) = globals w"
  by (auto simp: replace_code_def split: option.splits prod.splits sum.splits)

lemma set_instrumented_globals: "globals (set_instrumented f w) = globals w"
  by (auto simp: set_instrumented_def split: option.splits)

lemma set_instrumented_obj:
  "obj_at w f = Some ob \<Longrightarrow>
   obj_at (set_instrumented f w) f
     = Some (ob\<lparr>oattrs := (oattrs ob)(INSTRUMENTED_FLAG \<mapsto> VBool True)\<rparr>)"
  by (auto simp: set_instrumented_def obj_at_def split: if_splits)

lemma install_tracer_obj: "obj_at (install_tracer f w) r = obj_at w r"
  by (auto simp: install_tracer_def obj_at_def split: option.splits if_splits)

lemma set_instrumented_self: "self (set_instrumented f w) = self w"
  by (auto simp: set_instrumented_def split: option.splits)

text \<open>
  Claim C4. A call of \<^verbatim>\<open>instrument_function\<close> on a function that has the attribute
  \<^verbatim>\<open>instrumented\<close> raises the assertion error and leaves everything as it was: the
  function, the globals and the counters. On a function without the attribute, the call is
  the three assignments in their order; the state in which the code is rewritten already
  has the flag on the function and still has the original code, and the flag is on the
  function when the call ends.
\<close>

theorem instrumented_guard:
  assumes "obj_at w f = Some ob"
  shows "(hasattr ob INSTRUMENTED_FLAG \<longrightarrow> instrument_function f w = (Inl AssertionError, w))
    \<and> (\<not> hasattr ob INSTRUMENTED_FLAG \<longrightarrow>
          instrument_function f w = replace_code f (install_tracer f (set_instrumented f w))
          \<and> (\<exists>ob1. obj_at (install_tracer f (set_instrumented f w)) f = Some ob1
                \<and> hasattr ob1 INSTRUMENTED_FLAG \<and> ocode ob1 = ocode ob)
          \<and> (\<exists>ob2. obj_at (snd (instrument_function f w)) f = Some ob2
                \<and> hasattr ob2 INSTRUMENTED_FLAG))"
proof (intro conjI impI)
  assume "hasattr ob INSTRUMENTED_FLAG"
  with assms show "instrument_function f w = (Inl AssertionError, w)"
    by (simp add: instrument_function_def)
next
  assume n: "\<not> hasattr ob INSTRUMENTED_FLAG"
  with assms show eq: "instrument_function f w
      = replace_code f (install_tracer f (set_instrumented f w))"
    by (simp add: instrument_function_def)
  have m: "obj_at (install_tracer f (set_instrumented f w)) f
      = Some (ob\<lparr>oattrs := (oattrs ob)(INSTRUMENTED_FLAG \<mapsto> VBool True)\<rparr>)"
    by (simp add: install_tracer_obj set_instrumented_obj [OF assms])
  then show "\<exists>ob1. obj_at (install_tracer f (set_instrumented f w)) f = Some ob1
      \<and> hasattr ob1 INSTRUMENTED_FLAG \<and> ocode ob1 = ocode ob"
    by (simp add: hasattr_def)
  from replace_code_keeps_flag [OF m, of INSTRUMENTED_FLAG]
  show "\<exists>ob2. obj_at (snd (instrument_function f w)) f = Some ob2
      \<and> hasattr ob2 INSTRUMENTED_FLAG"
    by (simp add: eq hasattr_def)
qed

text \<open>
  Two functions of one module for the examples: one not yet instrumented and one that
  carries the flag; the module already binds the name \<^verbatim>\<open>tracer\<close> to something else.
\<close>

definition plain_function :: pyobject where
  "plain_function =
     \<lparr>okind = Function, omembers = [], oattrs = Map.empty, oglobals = 0,
      ocode = Code [] [Instr ''LOAD_CONST'' NoArg, Instr ''RETURN_VALUE'' NoArg]\<rparr>"

definition marked_function :: pyobject where
  "marked_function = plain_function\<lparr>oattrs := [INSTRUMENTED_FLAG \<mapsto> VBool True]\<rparr>"

definition two_functions :: world where
  "two_functions =
     \<lparr>self = init (VObj 9), heap = [plain_function, marked_function],
      globals = (\<lambda>g. [TRACER_NAME \<mapsto> VStr ''other''])\<rparr>"

text \<open>
  The theorem at a function that carries the flag and at one that does not.
\<close>

theorem instrumented_guard_witness:
  "obj_at two_functions 1 = Some marked_function
   \<and> hasattr marked_function INSTRUMENTED_FLAG
   \<and> instrument_function 1 two_functions = (Inl AssertionError, two_functions)
   \<and> obj_at two_functions 0 = Some plain_function
   \<and> \<not> hasattr plain_function INSTRUMENTED_FLAG
   \<and> instrument_function 0 two_functions
       = replace_code 0 (install_tracer 0 (set_instrumented 0 two_functions))"
proof -
  have h: "obj_at two_functions 1 = Some marked_function"
    and k: "obj_at two_functions 0 = Some plain_function"
    by (simp_all add: obj_at_def two_functions_def)
  have m: "hasattr marked_function INSTRUMENTED_FLAG"
    and n: "\<not> hasattr plain_function INSTRUMENTED_FLAG"
    by (simp_all add: marked_function_def plain_function_def hasattr_def)
  from instrumented_guard [OF h] instrumented_guard [OF k] h k m n show ?thesis by blast
qed

text \<open>
  Claim C10, as amended. A call of \<^verbatim>\<open>instrument_function\<close> on a function that is not
  yet marked as instrumented binds the name \<^verbatim>\<open>tracer\<close> in the globals of the function
  to the tracer, whatever was bound to it before, keeps every other entry of these globals,
  and leaves all other globals dictionaries alone.
\<close>

theorem tracer_installed:
  assumes "obj_at w f = Some ob" and "\<not> hasattr ob INSTRUMENTED_FLAG"
  shows "globals (snd (instrument_function f w)) (oglobals ob)
      = (globals w (oglobals ob))(TRACER_NAME \<mapsto> tracer (self w))
    \<and> (\<forall>g. g \<noteq> oglobals ob \<longrightarrow> globals (snd (instrument_function f w)) g = globals w g)"
  using assms
  by (simp add: instrument_function_def replace_code_globals install_tracer_def
      set_instrumented_obj set_instrumented_globals set_instrumented_self)

text \<open>
  The theorem at a function whose module already binds \<^verbatim>\<open>tracer\<close>.
\<close>

theorem tracer_installed_witness:
  "obj_at two_functions 0 = Some plain_function
   \<and> \<not> hasattr plain_function INSTRUMENTED_FLAG
   \<and> globals (snd (instrument_function 0 two_functions)) 0 TRACER_NAME = Some (VObj 9)"
proof -
  have h: "obj_at two_functions 0 = Some plain_function"
    by (simp add: obj_at_def two_functions_def)
  have m: "\<not> hasattr plain_function INSTRUMENTED_FLAG"
    by (simp add: plain_function_def hasattr_def)
  from tracer_installed [OF h m] h m show ?thesis
    by (simp add: two_functions_def plain_function_def init_def)
qed

text \<open>
  Claim C10 as stated fails for a call on a function that already carries the flag: the
  assertion stops the call before line 46, and the name \<^verbatim>\<open>tracer\<close> keeps its old
  binding instead of the tracer of this instrumentation.
\<close>

theorem marked_function_counterexample:
  "obj_at two_functions 1 = Some marked_function
   \<and> globals (snd (instrument_function 1 two_functions)) (oglobals marked_function) TRACER_NAME
       = Some (VStr ''other'')
   \<and> tracer (self two_functions) = VObj 9"
  by (simp add: obj_at_def two_functions_def instrument_function_def marked_function_def
      plain_function_def hasattr_def init_def)

section \<open>The IDs of one run\<close>

text \<open>The predicate IDs and the function IDs among the calls made on the tracer, in order.\<close>

fun pred_ids :: "tracer_call list \<Rightarrow> int list" where
  "pred_ids [] = []"
| "pred_ids (PredicateExists i # evs) = i # pred_ids evs"
| "pred_ids (FunctionExists i # evs) = pred_ids evs"

fun fun_ids :: "tracer_call list \<Rightarrow> int list" where
  "fun_ids [] = []"
| "fun_ids (PredicateExists i # evs) = fun_ids evs"
| "fun_ids (FunctionExists i # evs) = i # fun_ids evs"

text \<open>
  The calls made on the tracer between two states of the instrumentation object.
\<close>

definition new_calls :: "coord \<Rightarrow> coord \<Rightarrow> tracer_call list" where
  "new_calls s s' = drop (length (tracer_log s)) (tracer_log s')"

text \<open>
  From \<open>s\<close> to \<open>s'\<close> the counters did not go back, the earlier calls are still there,
  and the IDs registered in between are exactly the values the counters passed.
\<close>

definition advances :: "coord \<Rightarrow> coord \<Rightarrow> bool" where
  "advances s s' \<longleftrightarrow>
     predicate_id s \<le> predicate_id s' \<and> function_id s \<le> function_id s'
     \<and> tracer s' = tracer s
     \<and> take (length (tracer_log s)) (tracer_log s') = tracer_log s
     \<and> pred_ids (new_calls s s') = [predicate_id s .. predicate_id s' - 1]
     \<and> fun_ids (new_calls s s') = [function_id s .. function_id s' - 1]"

lemma pred_ids_append: "pred_ids (xs @ ys) = pred_ids xs @ pred_ids ys"
  by (induction xs rule: pred_ids.induct) auto

lemma fun_ids_append: "fun_ids (xs @ ys) = fun_ids xs @ fun_ids ys"
  by (induction xs rule: fun_ids.induct) auto

lemma pred_ids_registered: "pred_ids (map PredicateExists is) = is"
  by (induction "is") auto

lemma fun_ids_registered: "fun_ids (map PredicateExists is) = []"
  by (induction "is") auto

lemma upto_join: "a \<le> b \<Longrightarrow> b \<le> c \<Longrightarrow> [a..b - 1] @ [b..c - 1] = [a..c - 1]"
proof -
  assume ab: "a \<le> b" and bc: "b \<le> c"
  show ?thesis
  proof (cases "a = b")
    case True
    then show ?thesis by simp
  next
    case False
    with ab bc have "a \<le> b - 1" "b - 1 \<le> c - 1" by auto
    from upto_split2 [OF this] show ?thesis by simp
  qed
qed

lemma advancesI:
  assumes "tracer_log s' = tracer_log s @ evs"
    and "pred_ids evs = [predicate_id s .. predicate_id s' - 1]"
    and "fun_ids evs = [function_id s .. function_id s' - 1]"
    and "predicate_id s \<le> predicate_id s'" and "function_id s \<le> function_id s'"
    and "tracer s' = tracer s"
  shows "advances s s'"
  using assms by (simp add: advances_def new_calls_def)

lemma advancesD:
  assumes "advances s s'"
  shows "tracer_log s' = tracer_log s @ new_calls s s'"
proof -
  have "tracer_log s' = take (length (tracer_log s)) (tracer_log s')
      @ drop (length (tracer_log s)) (tracer_log s')" by simp
  with assms show ?thesis by (simp add: advances_def new_calls_def)
qed

lemma advances_refl: "advances s s"
  by (simp add: advances_def new_calls_def)

lemma advances_trans:
  assumes a: "advances s s1" and b: "advances s1 s2"
  shows "advances s s2"
proof (rule advancesI)
  show "tracer_log s2 = tracer_log s @ (new_calls s s1 @ new_calls s1 s2)"
    using advancesD [OF a] advancesD [OF b] by simp
  show "pred_ids (new_calls s s1 @ new_calls s1 s2) = [predicate_id s .. predicate_id s2 - 1]"
    using a b by (simp add: pred_ids_append advances_def upto_join)
  show "fun_ids (new_calls s s1 @ new_calls s1 s2) = [function_id s .. function_id s2 - 1]"
    using a b by (simp add: fun_ids_append advances_def upto_join)
  show "predicate_id s \<le> predicate_id s2" "function_id s \<le> function_id s2"
    "tracer s2 = tracer s"
    using a b by (simp_all add: advances_def)
qed

lemma advances_register_predicates: "advances s (register_predicates n s)"
  by (rule advancesI [where evs = "map PredicateExists
        [predicate_id s .. predicate_id s + int n - 1]"])
     (simp_all add: register_predicates_def pred_ids_registered fun_ids_registered)

lemma advances_register_function: "advances s (register_function s)"
  by (rule advancesI [where evs = "[FunctionExists (function_id s)]"])
     (simp_all add: register_function_def)

lemma advances_after_pass: "advances s (after_pass xs s)"
  unfolding after_pass_def
  by (auto intro: advances_refl advances_trans advances_register_function
      advances_register_predicates)

lemma advances_code:
  "advances s (snd (instrument_code_recursive c s))"
  "advances s (snd (instrument_consts ks s))"
proof (induction c s and ks s rule: instrument_code_recursive_instrument_consts.induct)
  case (1 ks xs s)
  show ?case
  proof (cases "instrument_consts ks s")
    case (Pair r s1)
    with 1 have a: "advances s s1" by simp
    show ?thesis
    proof (cases r)
      case (Inl e)
      with Pair a show ?thesis by simp
    next
      case (Inr ks')
      with Pair a show ?thesis
        by (auto simp: instrument_pass_eq intro: advances_trans advances_after_pass)
    qed
  qed
next
  case (2 s)
  show ?case by (simp add: advances_refl)
next
  case (3 v ks s)
  then show ?case by (auto split: prod.splits sum.splits)
next
  case (4 c ks s)
  show ?case
  proof (cases "instrument_code_recursive c s")
    case (Pair r s1)
    with 4 have a: "advances s s1" by simp
    show ?thesis
    proof (cases r)
      case (Inl e)
      with Pair a show ?thesis by simp
    next
      case (Inr c')
      with 4(2) [OF Pair [symmetric] Inr] Pair a
      show ?thesis
        by (auto split: prod.splits sum.splits intro: advances_trans)
    qed
  qed
qed

lemma advances_code_result:
  "instrument_code_recursive c s = (r, s') \<Longrightarrow> advances s s'"
  using advances_code(1) [of s c] by simp

lemma advances_replace_code: "advances (self w) (self (snd (replace_code f w)))"
  by (auto simp: replace_code_def advances_refl split: option.splits prod.splits sum.splits
      dest: advances_code_result)

lemma advances_function: "advances (self w) (self (snd (instrument_function f w)))"
  using advances_replace_code [of "install_tracer f (set_instrumented f w)" f]
  by (auto simp: instrument_function_def advances_refl install_tracer_def
      set_instrumented_def split: option.splits)

lemma advances_function_step:
  "(if isfunction w v then instrument_function v w else (Inr (), w)) = (r, w1) \<Longrightarrow>
   advances (self w) (self w1)"
  using advances_function [of w v]
  by (cases "isfunction w v") (auto simp: advances_refl)

lemma advances_walk:
  "advances (self w) (self (snd (snd (instrument obj seen w))))"
  "advances (self w) (self (snd (snd (instrument_members ms seen w))))"
proof (induction obj seen w and ms seen w rule: instrument_instrument_members.induct)
  case (1 obj seen w)
  then show ?case by (simp add: instrument.simps advances_refl)
next
  case (2 seen w)
  show ?case by (simp add: advances_refl)
next
  case (3 n v ms seen w)
  obtain r1 w1 where e1:
    "(if isfunction w v then instrument_function v w else (Inr (), w)) = (r1, w1)"
    by (cases "if isfunction w v then instrument_function v w else (Inr (), w)") auto
  have a1: "advances (self w) (self w1)" using e1 by (rule advances_function_step)
  show ?case
  proof (cases r1)
    case (Inl e)
    with e1 a1 show ?thesis by simp
  next
    case (Inr b)
    obtain r2 seen2 w2 where e2:
      "(if isclass w1 v \<or> ismethod w1 v then instrument v seen w1
        else (Inr (), seen, w1)) = (r2, seen2, w2)"
      by (cases "if isclass w1 v \<or> ismethod w1 v then instrument v seen w1
        else (Inr (), seen, w1)") auto
    have a2: "advances (self w1) (self w2)"
    proof (cases "isclass w1 v \<or> ismethod w1 v")
      case True
      from "3.IH"(1) [OF e1 [symmetric] Inr True] e2 True show ?thesis by simp
    next
      case False
      with e2 show ?thesis by (simp add: advances_refl)
    qed
    show ?thesis
    proof (cases r2)
      case (Inl e)
      with e1 e2 Inr a1 a2 show ?thesis by (auto intro: advances_trans)
    next
      case r2: (Inr b2)
      from "3.IH"(2) [OF e1 [symmetric] Inr e2 [symmetric] r2 refl]
      have "advances (self w2) (self (snd (snd (instrument_members ms seen2 w2))))" .
      with e1 e2 Inr r2 a1 a2 show ?thesis by (auto intro: advances_trans)
    qed
  qed
qed

section \<open>The IDs that the probes carry\<close>

text \<open>
  Reading the IDs back from the instructions. A probe is recognised by its
  \<^verbatim>\<open>LOAD_METHOD\<close> of one of the three tracer hooks; the ID it carries is the integer of
  the next \<^verbatim>\<open>LOAD_CONST\<close> (lines 88, 104 and 117). \<open>carried\<close> lists, in the order of
  the instructions, the hook and ID of every probe of an instruction list.
\<close>

fun hook :: "elem \<Rightarrow> (int \<Rightarrow> tracer_call) option" where
  "hook (Instr n a) =
     (if n = ''LOAD_METHOD'' then
        (if a = StrArg ''entered_function'' then Some FunctionExists
         else if a = StrArg ''passed_bool_predicate'' \<or> a = StrArg ''passed_cmp_predicate''
         then Some PredicateExists else None)
      else None)"
| "hook (Label l) = None"
| "hook (SetLineno l) = None"

fun next_const :: "elem list \<Rightarrow> int option" where
  "next_const [] = None"
| "next_const (Instr n (IntArg i) # xs) = (if n = ''LOAD_CONST'' then Some i else next_const xs)"
| "next_const (x # xs) = next_const xs"

fun carried :: "elem list \<Rightarrow> tracer_call list" where
  "carried [] = []"
| "carried (x # xs) =
     (case hook x of
        None \<Rightarrow> carried xs
      | Some k \<Rightarrow> (case next_const xs of None \<Rightarrow> carried xs | Some i \<Rightarrow> k i # carried xs))"

text \<open>
  An instruction list that calls no tracer hook, as code that was never instrumented.
\<close>

definition clean :: "elem list \<Rightarrow> bool" where
  "clean xs = list_all (\<lambda>x. hook x = None) xs"

lemma carried_clean_append: "clean xs \<Longrightarrow> carried (xs @ ys) = carried ys"
  by (induction xs) (auto simp: clean_def)

lemma carried_clean: "clean xs \<Longrightarrow> carried xs = []"
  using carried_clean_append [of xs "[]"] by simp

lemma carried_entered:
  "carried (function_entered_stmts f @ ys) = FunctionExists f # carried ys"
  by (simp add: function_entered_stmts_def)

lemma carried_bool:
  "carried (bool_predicate_stmts p @ ys) = PredicateExists p # carried ys"
  by (simp add: bool_predicate_stmts_def)

lemma carried_cmp:
  "carried (cmp_predicate_stmts p op @ ys) = PredicateExists p # carried ys"
  by (simp add: cmp_predicate_stmts_def)

lemma upto_first: "[p..p + int (Suc n) - 1] = p # [p + 1..p + 1 + int n - 1]"
  by (simp add: upto_rec1 [of p] add.commute add.left_commute)

lemma carried_weave:
  "hook l = None \<Longrightarrow> clean xs \<Longrightarrow>
   carried (flatten (weave p l xs))
     = map PredicateExists [p .. p + int (n_branches xs) - 1]"
proof (induction xs arbitrary: p l)
  case Nil
  then show ?case by (simp add: flatten_def n_branches_def)
next
  case (Cons x xs)
  then have hx: "hook x = None" and cx: "clean xs" by (simp_all add: clean_def)
  have ih: "carried (flatten (weave q x xs))
      = map PredicateExists [q .. q + int (n_branches xs) - 1]" for q
    using Cons.IH [OF hx cx] .
  have fl: "flatten (a # ps) = render a @ flatten ps" for a ps by (simp add: flatten_def)
  have sk: "carried (l # ys) = carried ys" for ys using Cons.prems(1) by simp
  show ?case
  proof (cases "cond_branch x")
    case True
    then have n: "n_branches (x # xs) = Suc (n_branches xs)" by (simp add: n_branches_def)
    have rhs: "map PredicateExists [p .. p + int (n_branches (x # xs)) - 1]
        = PredicateExists p # map PredicateExists [p + 1 .. p + 1 + int (n_branches xs) - 1]"
      by (simp only: n upto_first list.map)
    have lhs: "carried (flatten (weave p l (x # xs)))
        = PredicateExists p # carried (flatten (weave (p + 1) x xs))"
    proof (cases "is_compare l")
      case c: True
      have "flatten (weave p l (x # xs))
          = cmp_predicate_stmts p (iarg l) @ (l # flatten (weave (p + 1) x xs))"
        using True c by (simp add: fl)
      then show ?thesis by (simp only: carried_cmp sk)
    next
      case c: False
      have "flatten (weave p l (x # xs))
          = l # (bool_predicate_stmts p @ flatten (weave (p + 1) x xs))"
        using True c by (simp add: fl)
      then show ?thesis by (simp only: carried_bool sk)
    qed
    show ?thesis unfolding rhs lhs ih ..
  next
    case False
    then have n: "n_branches (x # xs) = n_branches xs" by (simp add: n_branches_def)
    have "flatten (weave p l (x # xs)) = l # flatten (weave p x xs)"
      using False by (simp add: fl)
    then show ?thesis by (simp only: sk ih n)
  qed
qed

lemma carried_plan:
  "clean xs \<Longrightarrow>
   carried (flatten (plan (predicate_id s) (function_id s) xs)) = new_calls s (after_pass xs s)"
proof (cases xs)
  case Nil
  then show ?thesis by (simp add: plan_def flatten_def after_pass_def new_calls_def)
next
  case (Cons x rest)
  assume "clean xs"
  with Cons have hx: "hook x = None" and cr: "clean rest" by (simp_all add: clean_def)
  have fl: "flatten (a # ps) = render a @ flatten ps" for a ps by (simp add: flatten_def)
  have nc: "new_calls s (after_pass xs s)
      = FunctionExists (function_id s)
        # map PredicateExists [predicate_id s .. predicate_id s + int (n_branches xs) - 1]"
    using Cons
    by (simp add: new_calls_def after_pass_def register_predicates_def register_function_def)
  show ?thesis
  proof (cases "cond_branch x")
    case True
    then have n: "n_branches xs = Suc (n_branches rest)" using Cons by (simp add: n_branches_def)
    show ?thesis unfolding nc n upto_first using True Cons
      by (simp add: plan_def fl carried_entered carried_bool carried_weave [OF hx cr]
          del: upto.simps)
  next
    case False
    then have n: "n_branches xs = n_branches rest" using Cons by (simp add: n_branches_def)
    show ?thesis unfolding nc n using False Cons
      by (simp add: plan_def fl carried_entered carried_weave [OF hx cr] del: upto.simps)
  qed
qed


text \<open>
  The same for a code object with its nested units (the nested units first, as they are
  instrumented first), for the whole heap, and the condition that every object without the
  flag \<^verbatim>\<open>instrumented\<close> holds code that calls no tracer hook.
\<close>

fun carried_code :: "code \<Rightarrow> tracer_call list"
  and carried_consts :: "const list \<Rightarrow> tracer_call list"
where
  "carried_code (Code ks xs) = carried_consts ks @ carried xs"
| "carried_consts [] = []"
| "carried_consts (KVal v # ks) = carried_consts ks"
| "carried_consts (KCode c # ks) = carried_code c @ carried_consts ks"

fun clean_code :: "code \<Rightarrow> bool"
  and clean_consts :: "const list \<Rightarrow> bool"
where
  "clean_code (Code ks xs) = (clean_consts ks \<and> clean xs)"
| "clean_consts [] = True"
| "clean_consts (KVal v # ks) = clean_consts ks"
| "clean_consts (KCode c # ks) = (clean_code c \<and> clean_consts ks)"

definition heap_carried :: "world \<Rightarrow> tracer_call list" where
  "heap_carried w = concat (map (\<lambda>ob. carried_code (ocode ob)) (heap w))"

definition unmarked_clean :: "world \<Rightarrow> bool" where
  "unmarked_clean w =
     list_all (\<lambda>ob. hasattr ob INSTRUMENTED_FLAG \<or> clean_code (ocode ob)) (heap w)"

lemma carried_clean_code:
  "clean_code c \<Longrightarrow> carried_code c = []"
  "clean_consts ks \<Longrightarrow> carried_consts ks = []"
  by (induction c and ks rule: carried_code_carried_consts.induct)
     (auto simp: carried_clean)

lemma new_calls_trans:
  "advances s s1 \<Longrightarrow> advances s1 s2 \<Longrightarrow> new_calls s s2 = new_calls s s1 @ new_calls s1 s2"
  using advancesD [of s s1] advancesD [of s1 s2] advancesD [OF advances_trans, of s s1 s2]
  by simp

lemma new_calls_refl: "new_calls s s = []"
  by (simp add: new_calls_def)

lemma advances_consts_result:
  "instrument_consts ks s = (r, s') \<Longrightarrow> advances s s'"
  using advances_code(2) [of s ks] by simp

lemma carried_instrumented:
  "clean_code c \<Longrightarrow> instrument_code_recursive c s = (Inr c', s') \<Longrightarrow>
     carried_code c' = new_calls s s'"
  "clean_consts ks \<Longrightarrow> instrument_consts ks s = (Inr ks', s') \<Longrightarrow>
     carried_consts ks' = new_calls s s'"
proof (induction c s and ks s arbitrary: c' s' and ks' s'
    rule: instrument_code_recursive_instrument_consts.induct)
  case (1 ks xs s)
  from "1.prems"(2) obtain nk s1 where k: "instrument_consts ks s = (Inr nk, s1)"
    and c': "c' = Code nk (flatten (plan (predicate_id s1) (function_id s1) xs))"
    and s': "s' = after_pass xs s1"
    by (auto simp: instrument_pass_eq split: prod.splits sum.splits)
  from "1.prems"(1) have ck: "clean_consts ks" and cx: "clean xs" by simp_all
  have a: "carried_consts nk = new_calls s s1" using "1.IH" [OF ck k] .
  show ?case
    unfolding c' s'
    by (simp add: a carried_plan [OF cx]
        new_calls_trans [OF advances_consts_result [OF k] advances_after_pass])
next
  case (2 s)
  then show ?case by (simp add: new_calls_refl)
next
  case (3 v ks s)
  then show ?case by (auto split: prod.splits sum.splits)
next
  case (4 c ks s)
  from "4.prems"(2) obtain nc s1 nk where c: "instrument_code_recursive c s = (Inr nc, s1)"
    and k: "instrument_consts ks s1 = (Inr nk, s')" and ks': "ks' = KCode nc # nk"
    by (auto split: prod.splits sum.splits)
  from "4.prems"(1) have cc: "clean_code c" and ck: "clean_consts ks" by simp_all
  have a: "carried_code nc = new_calls s s1" using "4.IH"(1) [OF cc c] .
  have b: "carried_consts nk = new_calls s1 s'"
    using "4.IH"(2) [OF c [symmetric] refl ck k] .
  show ?case
    unfolding ks'
    by (simp add: a b
        new_calls_trans [OF advances_code_result [OF c] advances_consts_result [OF k]])
qed


text \<open>
  From \<open>w\<close> to \<open>w'\<close>, the probes that the code of the heap gained carry exactly the IDs
  registered with the tracer in between.
\<close>

definition linked :: "world \<Rightarrow> world \<Rightarrow> bool" where
  "linked w w' \<longleftrightarrow>
     advances (self w) (self w') \<and> unmarked_clean w'
     \<and> mset (heap_carried w') = mset (heap_carried w) + mset (new_calls (self w) (self w'))"

lemma linked_refl: "unmarked_clean w \<Longrightarrow> linked w w"
  by (simp add: linked_def advances_refl new_calls_refl)

lemma linked_trans: "linked w w1 \<Longrightarrow> linked w1 w2 \<Longrightarrow> linked w w2"
  by (auto simp: linked_def new_calls_trans intro: advances_trans)

lemma instrument_function_unmarked:
  assumes "obj_at w f = Some ob" and "\<not> hasattr ob INSTRUMENTED_FLAG"
    and "instrument_code_recursive (ocode ob) (self w) = (Inr c', s')"
  shows "snd (instrument_function f w)
      = w\<lparr>self := s',
           heap := (heap w)[f := ob\<lparr>oattrs := (oattrs ob)(INSTRUMENTED_FLAG \<mapsto> VBool True),
                                    ocode := c'\<rparr>],
           globals := (globals w)
             (oglobals ob := (globals w (oglobals ob))(TRACER_NAME \<mapsto> tracer (self w)))\<rparr>"
  using assms
  by (simp add: instrument_function_def replace_code_def install_tracer_def
      set_instrumented_def obj_at_def split: if_splits)

lemma heap_carried_update:
  assumes "f < length (heap w)" and "carried_code (ocode (heap w ! f)) = []"
    and "heap w' = (heap w)[f := ob']"
  shows "mset (heap_carried w') = mset (heap_carried w) + mset (carried_code (ocode ob'))"
proof -
  have a: "heap w = take f (heap w) @ heap w ! f # drop (Suc f) (heap w)"
    using assms(1) by (simp add: id_take_nth_drop)
  have b: "heap w' = take f (heap w) @ ob' # drop (Suc f) (heap w)"
    using assms(1,3) by (simp add: upd_conv_take_nth_drop)
  have "heap_carried w
      = concat (map (\<lambda>ob. carried_code (ocode ob)) (take f (heap w)))
        @ concat (map (\<lambda>ob. carried_code (ocode ob)) (drop (Suc f) (heap w)))"
    unfolding heap_carried_def by (subst a) (simp add: assms(2))
  moreover have "heap_carried w'
      = concat (map (\<lambda>ob. carried_code (ocode ob)) (take f (heap w)))
        @ carried_code (ocode ob')
        @ concat (map (\<lambda>ob. carried_code (ocode ob)) (drop (Suc f) (heap w)))"
    unfolding heap_carried_def b by simp
  ultimately show ?thesis by simp
qed

lemma unmarked_clean_update:
  assumes "unmarked_clean w" and "heap w' = (heap w)[f := ob']"
    and "hasattr ob' INSTRUMENTED_FLAG"
  shows "unmarked_clean w'"
  using assms set_update_subset_insert [of "heap w" f ob']
  by (auto simp: unmarked_clean_def list_all_iff)

lemma linked_function:
  assumes u: "unmarked_clean w"
  shows "linked w (snd (instrument_function f w))"
proof (cases "obj_at w f")
  case None
  with u show ?thesis by (simp add: instrument_function_def linked_refl)
next
  case (Some ob)
  show ?thesis
  proof (cases "hasattr ob INSTRUMENTED_FLAG")
    case True
    with Some u show ?thesis by (simp add: instrument_function_def linked_refl)
  next
    case False
    obtain c' s' where c: "instrument_code_recursive (ocode ob) (self w) = (Inr c', s')"
      using instrument_never_fails(1) by blast
    let ?ob' = "ob\<lparr>oattrs := (oattrs ob)(INSTRUMENTED_FLAG \<mapsto> VBool True), ocode := c'\<rparr>"
    let ?w' = "snd (instrument_function f w)"
    note r = instrument_function_unmarked [OF Some False c]
    have fl: "f < length (heap w)" and ob: "heap w ! f = ob"
      using Some by (auto simp: obj_at_def split: if_splits)
    from u fl ob False have cl: "clean_code (ocode ob)"
      by (auto simp: unmarked_clean_def list_all_iff)
    have h: "heap ?w' = (heap w)[f := ?ob']" and s: "self ?w' = s'" by (simp_all add: r)
    have 1: "advances (self w) (self ?w')" by (rule advances_function)
    have 2: "unmarked_clean ?w'"
      by (rule unmarked_clean_update [OF u h]) (simp add: hasattr_def)
    have 3: "mset (heap_carried ?w') = mset (heap_carried w) + mset (carried_code (ocode ?ob'))"
      by (rule heap_carried_update [OF fl _ h]) (simp add: ob carried_clean_code(1) [OF cl])
    have 4: "carried_code (ocode ?ob') = new_calls (self w) (self ?w')"
      using carried_instrumented(1) [OF cl c] s by simp
    from 1 2 3 4 show ?thesis by (simp add: linked_def)
  qed
qed

lemma linked_function_step:
  "unmarked_clean w \<Longrightarrow>
   (if isfunction w v then instrument_function v w else (Inr (), w)) = (r, w1) \<Longrightarrow>
   linked w w1"
  using linked_function [of w v]
  by (cases "isfunction w v") (auto simp: linked_refl)

lemma linked_walk:
  "unmarked_clean w \<Longrightarrow> linked w (snd (snd (instrument obj seen w)))"
  "unmarked_clean w \<Longrightarrow> linked w (snd (snd (instrument_members ms seen w)))"
proof (induction obj seen w and ms seen w rule: instrument_instrument_members.induct)
  case (1 obj seen w)
  then show ?case by (simp add: instrument.simps linked_refl)
next
  case (2 seen w)
  then show ?case by (simp add: linked_refl)
next
  case (3 n v ms seen w)
  note u = "3.prems"
  obtain r1 w1 where e1:
    "(if isfunction w v then instrument_function v w else (Inr (), w)) = (r1, w1)"
    by (cases "if isfunction w v then instrument_function v w else (Inr (), w)") auto
  have a1: "linked w w1" using u e1 by (rule linked_function_step)
  then have u1: "unmarked_clean w1" by (simp add: linked_def)
  show ?case
  proof (cases r1)
    case (Inl e)
    with e1 a1 show ?thesis by simp
  next
    case (Inr b)
    obtain r2 seen2 w2 where e2:
      "(if isclass w1 v \<or> ismethod w1 v then instrument v seen w1
        else (Inr (), seen, w1)) = (r2, seen2, w2)"
      by (cases "if isclass w1 v \<or> ismethod w1 v then instrument v seen w1
        else (Inr (), seen, w1)") auto
    have a2: "linked w1 w2"
    proof (cases "isclass w1 v \<or> ismethod w1 v")
      case True
      from "3.IH"(1) [OF e1 [symmetric] Inr True u1] e2 True show ?thesis by simp
    next
      case False
      with e2 u1 show ?thesis by (simp add: linked_refl)
    qed
    then have u2: "unmarked_clean w2" by (simp add: linked_def)
    show ?thesis
    proof (cases r2)
      case (Inl e)
      with e1 e2 Inr a1 a2 show ?thesis by (auto intro: linked_trans)
    next
      case r2: (Inr b2)
      from "3.IH"(2) [OF e1 [symmetric] Inr e2 [symmetric] r2 refl u2]
      have "linked w2 (snd (snd (instrument_members ms seen2 w2)))" .
      with e1 e2 Inr r2 a1 a2 show ?thesis by (auto intro: linked_trans)
    qed
  qed
qed

text \<open>
  The instrumentation object after the call \<^verbatim>\<open>instrument(obj)\<close>, whether it returned or raised.
\<close>

definition after_instrument :: "nat \<Rightarrow> world \<Rightarrow> coord" where
  "after_instrument obj w = self (snd (snd (instrument_root obj w)))"

lemma strict_upto: "sorted_wrt (<) [a..b]"
  by (simp add: strict_sorted_iff)

text \<open>
  Claim C5. Over one call \<^verbatim>\<open>instrument(obj)\<close>, started with counters that are not
  negative (they start at 0 and are only ever incremented), the predicate IDs registered
  with the tracer, in the order of the insertions, are the consecutive integers from the
  old value of the predicate counter up to its new value: strictly increasing, distinct and
  not negative; for a new instrumentation object they are 0, 1, 2, ... The same holds for
  the function IDs and the function counter. Inserting a predicate probe leaves the function
  counter as it is, and inserting a function-entered probe leaves the predicate counter as
  it is. These are the IDs that the probes carry in their \<^verbatim>\<open>LOAD_CONST\<close>: each of the
  three probes carries the ID it is built with; a code unit that called no hook comes out of
  \<^verbatim>\<open>_instrument_code_recursive\<close> with probes that carry, in the order of the
  insertions, exactly the IDs registered during that call; and when the code of the
  unmarked objects called no hook before, the probes that the code of the heap gained by
  the whole call carry exactly the registered IDs, each once.
\<close>

theorem ids_distinct_increasing:
  assumes "0 \<le> predicate_id (self w)" and "0 \<le> function_id (self w)"
  shows "take (length (tracer_log (self w))) (tracer_log (after_instrument obj w))
        = tracer_log (self w)
    \<and> pred_ids (new_calls (self w) (after_instrument obj w))
        = [predicate_id (self w) .. predicate_id (after_instrument obj w) - 1]
    \<and> fun_ids (new_calls (self w) (after_instrument obj w))
        = [function_id (self w) .. function_id (after_instrument obj w) - 1]
    \<and> sorted_wrt (<) (pred_ids (new_calls (self w) (after_instrument obj w)))
    \<and> distinct (pred_ids (new_calls (self w) (after_instrument obj w)))
    \<and> (\<forall>i \<in> set (pred_ids (new_calls (self w) (after_instrument obj w))). 0 \<le> i)
    \<and> sorted_wrt (<) (fun_ids (new_calls (self w) (after_instrument obj w)))
    \<and> distinct (fun_ids (new_calls (self w) (after_instrument obj w)))
    \<and> (\<forall>i \<in> set (fun_ids (new_calls (self w) (after_instrument obj w))). 0 \<le> i)
    \<and> function_id (snd (add_bool_predicate c s)) = function_id s
    \<and> function_id (snd (add_cmp_predicate c s)) = function_id s
    \<and> predicate_id (snd (add_function_entered c s)) = predicate_id s
    \<and> carried (bool_predicate_stmts p) = [PredicateExists p]
    \<and> carried (cmp_predicate_stmts p op) = [PredicateExists p]
    \<and> carried (function_entered_stmts f) = [FunctionExists f]
    \<and> (clean_code cd \<longrightarrow>
          (\<exists>cd' s'. instrument_code_recursive cd s = (Inr cd', s')
             \<and> carried_code cd' = new_calls s s'))
    \<and> (unmarked_clean w \<longrightarrow>
          mset (heap_carried (snd (snd (instrument_root obj w))))
            = mset (heap_carried w) + mset (new_calls (self w) (after_instrument obj w)))"
proof -
  have a: "advances (self w) (after_instrument obj w)"
    unfolding after_instrument_def instrument_root_def by (rule advances_walk(1))
  have b: "function_id (snd (add_bool_predicate c s)) = function_id s"
    by (simp add: add_bool_predicate_def Let_def call_tracer_def split: sum.splits)
  have d: "function_id (snd (add_cmp_predicate c s)) = function_id s"
    by (simp add: add_cmp_predicate_def Let_def call_tracer_def split: sum.splits)
  have e: "predicate_id (snd (add_function_entered c s)) = predicate_id s"
    by (simp add: add_function_entered_def Let_def call_tracer_def split: sum.splits)
  have g: "carried (bool_predicate_stmts p) = [PredicateExists p]"
    "carried (cmp_predicate_stmts p op) = [PredicateExists p]"
    "carried (function_entered_stmts f) = [FunctionExists f]"
    using carried_bool [of p "[]"] carried_cmp [of p op "[]"] carried_entered [of f "[]"]
    by simp_all
  have h: "clean_code cd \<longrightarrow>
      (\<exists>cd' s'. instrument_code_recursive cd s = (Inr cd', s')
         \<and> carried_code cd' = new_calls s s')"
    using instrument_never_fails(1) [of cd s] carried_instrumented(1) [of cd s] by blast
  have k: "unmarked_clean w \<longrightarrow>
      mset (heap_carried (snd (snd (instrument_root obj w))))
        = mset (heap_carried w) + mset (new_calls (self w) (after_instrument obj w))"
    using linked_walk(1) [of w obj "{}"]
    by (simp add: linked_def after_instrument_def instrument_root_def)
  from a have p: "pred_ids (new_calls (self w) (after_instrument obj w))
        = [predicate_id (self w) .. predicate_id (after_instrument obj w) - 1]"
    and f: "fun_ids (new_calls (self w) (after_instrument obj w))
        = [function_id (self w) .. function_id (after_instrument obj w) - 1]"
    and t: "take (length (tracer_log (self w))) (tracer_log (after_instrument obj w))
        = tracer_log (self w)"
    by (simp_all add: advances_def)
  have m: "sorted_wrt (<) [predicate_id (self w) .. predicate_id (after_instrument obj w) - 1]
      \<and> distinct [predicate_id (self w) .. predicate_id (after_instrument obj w) - 1]
      \<and> (\<forall>i \<in> set [predicate_id (self w) .. predicate_id (after_instrument obj w) - 1]. 0 \<le> i)
      \<and> sorted_wrt (<) [function_id (self w) .. function_id (after_instrument obj w) - 1]
      \<and> distinct [function_id (self w) .. function_id (after_instrument obj w) - 1]
      \<and> (\<forall>i \<in> set [function_id (self w) .. function_id (after_instrument obj w) - 1]. 0 \<le> i)"
    using assms by (simp add: strict_upto)
  show ?thesis
    unfolding p f using t b d e g h k m by blast
qed

text \<open>
  Example objects: a function with one conditional branch, a module with one class, and a
  module with a class and a subclass that inherits the method of the class.
\<close>

definition run_function :: pyobject where
  "run_function =
     \<lparr>okind = Function, omembers = [], oattrs = Map.empty, oglobals = 0,
      ocode = Code [] [Instr ''LOAD_FAST'' (StrArg ''x''),
                       Instr ''POP_JUMP_IF_FALSE'' (LabelArg 0),
                       Instr ''RETURN_VALUE'' NoArg]\<rparr>"

definition container :: "kind \<Rightarrow> (string \<times> nat) list \<Rightarrow> pyobject" where
  "container k ms =
     \<lparr>okind = k, omembers = ms, oattrs = Map.empty, oglobals = 0, ocode = Code [] []\<rparr>"

definition inherited_method :: world where
  "inherited_method =
     \<lparr>self = init (VObj 9),
      heap = [container Opaque [(''Base'', 1), (''Derived'', 2)],
              container Class [(''run'', 3)],
              container Class [(''run'', 3)],
              run_function],
      globals = (\<lambda>g. Map.empty)\<rparr>"

definition one_class :: world where
  "one_class =
     \<lparr>self = init (VObj 9),
      heap = [container Opaque [(''Base'', 1)], container Class [(''run'', 2)], run_function],
      globals = (\<lambda>g. Map.empty)\<rparr>"

lemma one_class_run:
  "after_instrument 0 one_class
     = \<lparr>predicate_id = 1, function_id = 1, tracer = VObj 9,
        tracer_log = [FunctionExists 0, PredicateExists 0]\<rparr>"
  by (simp add: after_instrument_def instrument_root_def one_class_def instrument.simps
      getmembers_def obj_at_def container_def run_function_def isfunction_def isclass_def
      ismethod_def instrument_function_def hasattr_def set_instrumented_def
      install_tracer_def replace_code_def instrument_pass_eq INSTRUMENTED_FLAG_def
      after_pass_def register_predicates_def register_function_def n_branches_def
      cond_branch_def init_def)

lemma one_class_heap:
  "heap_carried (snd (snd (instrument_root 0 one_class)))
     = [FunctionExists 0, PredicateExists 0]"
  by (simp add: heap_carried_def instrument_root_def one_class_def instrument.simps
      getmembers_def obj_at_def container_def run_function_def isfunction_def isclass_def
      ismethod_def instrument_function_def hasattr_def set_instrumented_def
      install_tracer_def replace_code_def instrument_pass_eq INSTRUMENTED_FLAG_def
      after_pass_def register_predicates_def register_function_def n_branches_def
      cond_branch_def is_compare_def init_def plan_def flatten_def
      function_entered_stmts_def bool_predicate_stmts_def)

text \<open>
  The theorem at a module with one class and one method: the counters start at 0, the
  method calls no hook before the run, and afterwards its code carries the function ID 0
  and the predicate ID 0, the IDs registered with the tracer.
\<close>

theorem ids_distinct_increasing_witness:
  "0 \<le> predicate_id (self one_class) \<and> 0 \<le> function_id (self one_class)
   \<and> clean_code (ocode run_function) \<and> unmarked_clean one_class
   \<and> pred_ids (new_calls (self one_class) (after_instrument 0 one_class)) = [0]
   \<and> fun_ids (new_calls (self one_class) (after_instrument 0 one_class)) = [0]
   \<and> mset (heap_carried (snd (snd (instrument_root 0 one_class))))
       = mset (new_calls (self one_class) (after_instrument 0 one_class))
   \<and> heap_carried (snd (snd (instrument_root 0 one_class)))
       = [FunctionExists 0, PredicateExists 0]"
proof -
  have h1: "0 \<le> predicate_id (self one_class)" and h2: "0 \<le> function_id (self one_class)"
    by (simp_all add: one_class_def init_def)
  have h3: "clean_code (ocode run_function)"
    by (simp add: run_function_def clean_def)
  have h4: "unmarked_clean one_class"
    by (simp add: unmarked_clean_def one_class_def container_def run_function_def clean_def)
  have h5: "heap_carried one_class = []"
    by (simp add: heap_carried_def one_class_def container_def run_function_def)
  from ids_distinct_increasing [OF h1 h2, of 0 _ _ _ _ _ "ocode run_function"] h1 h2 h3 h4 h5
  show ?thesis
    by (simp add: one_class_run one_class_heap) (simp add: one_class_def init_def)
qed

text \<open>
  Claim C7 at a module with a class \<^verbatim>\<open>Base\<close> that defines \<^verbatim>\<open>run\<close> and a subclass
  \<^verbatim>\<open>Derived\<close> that inherits it: \<^verbatim>\<open>inspect.getmembers\<close> lists the same function
  for both classes. The walk visits the module and both classes, instruments \<^verbatim>\<open>run\<close>
  once, and then raises the assertion error of the double instrumentation when it meets
  \<^verbatim>\<open>run\<close> again: functions are not recorded in the set \<^verbatim>\<open>seen\<close>.
\<close>

theorem inherited_method_fails:
  "fst (instrument_root 0 inherited_method) = Inl AssertionError
   \<and> fst (snd (instrument_root 0 inherited_method)) = {0, 1, 2}
   \<and> function_id (after_instrument 0 inherited_method) = 1"
  by (simp add: after_instrument_def instrument_root_def inherited_method_def instrument.simps
      getmembers_def
      obj_at_def container_def run_function_def isfunction_def isclass_def ismethod_def
      instrument_function_def hasattr_def set_instrumented_def install_tracer_def
      replace_code_def instrument_pass_eq INSTRUMENTED_FLAG_def after_pass_def
      register_predicates_def register_function_def init_def insert_commute)

end
